theory Spec2Isabelle
  imports Main "HOL-Library.Word" "HOL-Library.AList"
begin

unbundle bit_operations_syntax

section \<open>JavaScript values and attribute hashes\<close>

text \<open>
  The store (Store.js, class \<open>O.Store\<close>) keeps, per store key, a hash of attribute
  values.  Attribute values are JSON scalars; \<open>Undefined\<close> is what reading a missing
  property gives.  Strict (in)equality \<open>!==\<close> on these values is HOL (in)equality.
  Object-valued attributes (compared by reference) and NaN are outside the model.
\<close>

datatype jsval = Undefined | Null | JBool bool | JNum int | JStr string

fun truthy :: "jsval \<Rightarrow> bool" where
  "truthy Undefined = False"
| "truthy Null = False"
| "truthy (JBool b) = b"
| "truthy (JNum n) = (n \<noteq> 0)"
| "truthy (JStr s) = (s \<noteq> [])"

fun natToString :: "nat \<Rightarrow> string" where
  "natToString n =
     (if n < 10 then [char_of (48 + n)]
      else natToString (n div 10) @ [char_of (48 + n mod 10)])"

text \<open>The property name a value is converted to when it indexes an object (\<open>ids[ id ]\<close>).\<close>

fun toKey :: "jsval \<Rightarrow> string" where
  "toKey Undefined = ''undefined''"
| "toKey Null = ''null''"
| "toKey (JBool b) = (if b then ''true'' else ''false'')"
| "toKey (JNum n) = (if n < 0 then CHR ''-'' # natToString (nat (- n)) else natToString (nat n))"
| "toKey (JStr s) = s"

text \<open>
  A hash is a JavaScript object used as a dictionary: an association list in property
  order.  Reading a missing key gives \<open>Undefined\<close>; assigning replaces in place or
  appends (\<open>AList.update\<close>).  A well-formed hash has every key once.
\<close>

type_synonym hash = "(string \<times> jsval) list"

type_synonym changedMap = "(string \<times> bool) list"

definition getAttr :: "hash \<Rightarrow> string \<Rightarrow> jsval" where
  "getAttr h k = (case map_of h k of None \<Rightarrow> Undefined | Some v \<Rightarrow> v)"

definition wfHash :: "('k \<times> 'v) list \<Rightarrow> bool" where
  "wfHash h = distinct (map fst h)"

text \<open>
  Modelled from the spec: \<open>NS.extend( base, extras )\<close> is not part of the sources; the spec
  calls it a merge in which the second argument wins on overlapping keys.  It assigns every
  property of \<open>extras\<close> to \<open>base\<close> and returns \<open>base\<close>.
\<close>

definition nsExtend :: "hash \<Rightarrow> hash \<Rightarrow> hash" where
  "nsExtend base extras = fold (\<lambda>(k, v) b. AList.update k v b) extras base"

section \<open>Record status\<close>

type_synonym status = "32 word"

definition EMPTY :: status where "EMPTY = 1"
definition READY :: status where "READY = 2"
definition DESTROYED :: status where "DESTROYED = 4"
definition NON_EXISTENT :: status where "NON_EXISTENT = 8"
definition LOADING :: status where "LOADING = 16"
definition COMMITTING :: status where "COMMITTING = 32"
definition NEW :: status where "NEW = 64"
definition DIRTY :: status where "DIRTY = 128"
definition OBSOLETE :: status where "OBSOLETE = 256"

definition CANNOT_CREATE_EXISTING_RECORD_ERROR :: string where
  "CANNOT_CREATE_EXISTING_RECORD_ERROR = ''Error: Cannot create existing record''"
definition CANNOT_WRITE_TO_UNREADY_RECORD_ERROR :: string where
  "CANNOT_WRITE_TO_UNREADY_RECORD_ERROR = ''Warning: Cannot write to unready record''"
definition FETCHED_IS_DESTROYED_OR_NON_EXISTENT_ERROR :: string where
  "FETCHED_IS_DESTROYED_OR_NON_EXISTENT_ERROR =
     ''Error: Record loaded which has status destroyed or non-existent''"
definition SOURCE_COMMIT_CREATE_MISMATCH_ERROR :: string where
  "SOURCE_COMMIT_CREATE_MISMATCH_ERROR =
     ''Error: Source committed a create on a record not marked new''"
definition SOURCE_COMMIT_DESTROY_MISMATCH_ERROR :: string where
  "SOURCE_COMMIT_DESTROY_MISMATCH_ERROR =
     ''Error: Source commited a destroy on a record not marked destroyed''"

text \<open>Exactly one of the four core-state bits is set.\<close>

definition oneCore :: "status \<Rightarrow> bool" where
  "oneCore st = (st AND 15 = 1 \<or> st AND 15 = 2 \<or> st AND 15 = 4 \<or> st AND 15 = 8)"

section \<open>The store\<close>

type_synonym storeKey = nat

record rtype =
  className :: string
  primaryKey :: string

text \<open>What one call of \<open>Source.commitChanges\<close> receives for one record type.\<close>

record changeset =
  createStoreKeys :: "storeKey list"
  createRecords :: "hash option list"
  updateStoreKeys :: "storeKey list"
  updateRecords :: "hash option list"
  updateChanges :: "changedMap list"
  destroyStoreKeys :: "storeKey list"
  destroyIds :: "jsval list"

text \<open>
  The store calls out to its collaborators: materialised records, nested stores, the
  source, the run loop and the console.  These calls are recorded in order; the
  collaborators are taken not to call back into the store while it runs.
\<close>

datatype event =
    ConsoleLog string
  | RecordStatusDidChange storeKey status status
  | ParentDidChangeStatus nat storeKey status status
  | RecordDataDidChange storeKey "string list"
  | ParentDidChangeData nat storeKey "string list"
  | NestedRecordSetWasModified nat "string option"
  | QueueRefreshLiveQueries
  | QueueCommitChanges
  | SourceFetchRecord rtype jsval
  | SourceRefreshRecord rtype jsval
  | SourceCommitChanges "(string \<times> changeset) list"

text \<open>
  The tables of \<open>init\<close>.  A table that is only ever indexed is a map (an absent entry
  reads \<open>undefined\<close>); a table the code enumerates with \<open>for .. in\<close> is an association
  list or a list of keys, enumerated in the order in which the keys were added.  \<open>nextKey\<close> is the module variable \<open>sk\<close> of
  \<open>generateStoreKey\<close>.  \<open>skToRecord\<close> says which records are materialised;
  \<open>recordHasObservers\<close> and \<open>nestedMayUnload\<close> are the answers of the record objects and
  of the nested stores.  \<open>isNested\<close> is false for \<open>O.Store\<close>; the branches of \<open>updateHash\<close>
  for a nested store belong to the subclass and are not modelled.
\<close>

record store =
  autoCommit :: bool
  rebaseConflicts :: bool
  skToRecord :: "storeKey \<Rightarrow> bool"
  recordHasObservers :: "storeKey \<Rightarrow> bool"
  skToData :: "storeKey \<rightharpoonup> hash"
  skToStatus :: "storeKey \<rightharpoonup> status"
  skToType :: "storeKey \<rightharpoonup> rtype"
  typeToSkToId :: "string \<rightharpoonup> (storeKey \<times> jsval) list"
  typeToIdToSk :: "string \<rightharpoonup> (string \<times> storeKey) list"
  skToChanged :: "(storeKey \<times> changedMap) list"
  skToCommitted :: "storeKey \<rightharpoonup> hash"
  skToRollback :: "storeKey \<rightharpoonup> hash"
  skToLastAccess :: "storeKey \<rightharpoonup> nat"
  created :: "storeKey list"
  destroyed :: "storeKey list"
  liveQueries :: "string list"
  queryTypesNeedRefresh :: "string list"
  nestedStores :: "nat list"
  nestedMayUnload :: "nat \<Rightarrow> storeKey \<Rightarrow> bool"
  nextKey :: nat
  events :: "event list"

definition init :: store where
  "init = \<lparr> autoCommit = True, rebaseConflicts = True,
      skToRecord = (\<lambda>_. False), recordHasObservers = (\<lambda>_. False),
      skToData = Map.empty, skToStatus = Map.empty, skToType = Map.empty,
      typeToSkToId = Map.empty, typeToIdToSk = Map.empty,
      skToChanged = [], skToCommitted = Map.empty, skToRollback = Map.empty,
      skToLastAccess = Map.empty, created = [], destroyed = [],
      liveQueries = [], queryTypesNeedRefresh = [],
      nestedStores = [], nestedMayUnload = (\<lambda>_ _. True),
      nextKey = 1, events = [] \<rparr>"

text \<open>A set of keys kept as the properties of an object (\<open>_created[ storeKey ] = 1\<close>).\<close>

definition addKey :: "'a \<Rightarrow> 'a list \<Rightarrow> 'a list" where
  "addKey k ks = (if k \<in> set ks then ks else ks @ [k])"

definition emit :: "event list \<Rightarrow> store \<Rightarrow> store" where
  "emit es s = s\<lparr>events := events s @ es\<rparr>"

subsection \<open>Status table\<close>

text \<open>\<open>this._skToStatus[ storeKey ] || EMPTY\<close>: an absent entry and 0 both read EMPTY.\<close>

definition getStatus :: "store \<Rightarrow> storeKey \<Rightarrow> status" where
  "getStatus s sk =
     (case skToStatus s sk of None \<Rightarrow> EMPTY | Some st \<Rightarrow> if st = 0 then EMPTY else st)"

text \<open>\<open>_skToStatus[ storeKey ]\<close> used in a bitwise expression: \<open>undefined\<close> counts as 0.\<close>

definition rawStatus :: "store \<Rightarrow> storeKey \<Rightarrow> status" where
  "rawStatus s sk = (case skToStatus s sk of None \<Rightarrow> 0 | Some st \<Rightarrow> st)"

definition setStatus :: "storeKey \<Rightarrow> status \<Rightarrow> store \<Rightarrow> store" where
  "setStatus sk st s =
     (let previousStatus = getStatus s sk in
      if previousStatus \<noteq> st then
        emit ((if skToRecord s sk then [RecordStatusDidChange sk previousStatus st] else []) @
              map (\<lambda>n. ParentDidChangeStatus n sk previousStatus st) (nestedStores s))
          (s\<lparr>skToStatus := (skToStatus s)(sk \<mapsto> st)\<rparr>)
      else s)"

definition setDirty :: "storeKey \<Rightarrow> store \<Rightarrow> store" where
  "setDirty sk s = setStatus sk (getStatus s sk OR DIRTY) s"

definition setLoading :: "storeKey \<Rightarrow> store \<Rightarrow> store" where
  "setLoading sk s = setStatus sk (getStatus s sk OR LOADING) s"

definition setCommitting :: "storeKey \<Rightarrow> store \<Rightarrow> store" where
  "setCommitting sk s = setStatus sk (getStatus s sk OR COMMITTING) s"

definition setObsolete :: "storeKey \<Rightarrow> store \<Rightarrow> store" where
  "setObsolete sk s = setStatus sk (getStatus s sk OR OBSOLETE) s"

subsection \<open>Notifications\<close>

text \<open>
  \<open>commitChanges\<close> is wrapped by \<open>.queue( 'before' )\<close>: calling it only asks the run loop
  to run the body once before the end of the tick.
\<close>

definition queueCommitChanges :: "store \<Rightarrow> store" where
  "queueCommitChanges s = emit [QueueCommitChanges] s"

text \<open>
  Modelled from the spec: \<open>Array#include\<close> is not part of the sources; it adds an item
  that is not yet in the array.
\<close>

definition recordSetWasModified :: "rtype option \<Rightarrow> store \<Rightarrow> store" where
  "recordSetWasModified T s =
     emit (map (\<lambda>n. NestedRecordSetWasModified n (map_option className T)) (nestedStores s) @
           [QueueRefreshLiveQueries])
       (s\<lparr>queryTypesNeedRefresh :=
            (case T of
               Some t \<Rightarrow> addKey (className t) (queryTypesNeedRefresh s)
             | None \<Rightarrow> fold addKey (liveQueries s) (queryTypesNeedRefresh s))\<rparr>)"

text \<open>
  \<open>_notifyRecordOfChanges\<close>: the materialised record is told of the changed keys (last
  first), then every nested store.  The record is taken to have an attribute for each key.
\<close>

definition notifyRecordOfChanges :: "storeKey \<Rightarrow> string list \<Rightarrow> store \<Rightarrow> store" where
  "notifyRecordOfChanges sk changedKeys s =
     emit ((if skToRecord s sk then [RecordDataDidChange sk (rev changedKeys)] else []) @
           map (\<lambda>n. ParentDidChangeData n sk changedKeys) (nestedStores s)) s"

subsection \<open>The update path\<close>

text \<open>
  The two loops of \<open>updateHash\<close> over the keys of \<open>data\<close>.  The accumulator of the dirty
  loop is \<open>(current, changedKeys, changed, seenChange)\<close>.
\<close>

fun dirtyLoop ::
  "hash \<Rightarrow> hash \<Rightarrow> hash \<times> string list \<times> changedMap \<times> bool \<Rightarrow>
   hash \<times> string list \<times> changedMap \<times> bool" where
  "dirtyLoop committed [] acc = acc"
| "dirtyLoop committed ((key, val) # rest) (current, changedKeys, changed, seenChange) =
     (if val \<noteq> getAttr current key then
        dirtyLoop committed rest
          (AList.update key val current, changedKeys @ [key],
           AList.update key (val \<noteq> getAttr committed key) changed,
           (val \<noteq> getAttr committed key) \<or> seenChange)
      else dirtyLoop committed rest (current, changedKeys, changed, seenChange))"

fun cleanLoop :: "hash \<Rightarrow> hash \<times> string list \<Rightarrow> hash \<times> string list" where
  "cleanLoop [] acc = acc"
| "cleanLoop ((key, val) # rest) (current, changedKeys) =
     (if val \<noteq> getAttr current key then
        cleanLoop rest (AList.update key val current, changedKeys @ [key])
      else cleanLoop rest (current, changedKeys))"

text \<open>
  \<open>updateHash( storeKey, data, changeIsDirty )\<close> returns whether the data was written.
  \<open>data\<close> may be \<open>undefined\<close> (\<open>None\<close>): enumerating it does nothing.
\<close>

definition updateHash :: "storeKey \<Rightarrow> hash option \<Rightarrow> bool \<Rightarrow> store \<Rightarrow> bool \<times> store" where
  "updateHash sk data changeIsDirty s =
     (let status = getStatus s sk;
          current = (case skToData s sk of Some c \<Rightarrow> c | None \<Rightarrow> []);
          s1 = s\<lparr>skToData := (skToData s)(sk \<mapsto> current)\<rparr>;
          pairs = (case data of Some d \<Rightarrow> d | None \<Rightarrow> []);
          changeIsDirty = (if status = READY OR NEW then False else changeIsDirty)
      in
      if changeIsDirty then
        if status AND READY = 0 then
          (False, emit [ConsoleLog CANNOT_WRITE_TO_UNREADY_RECORD_ERROR] s1)
        else
          let committed = (case skToCommitted s1 sk of Some c \<Rightarrow> c | None \<Rightarrow> current);
              s2 = s1\<lparr>skToCommitted := (skToCommitted s1)(sk \<mapsto> committed)\<rparr>;
              changed0 = (case map_of (skToChanged s2) sk of Some c \<Rightarrow> c | None \<Rightarrow> []);
              (current', changedKeys, changed, seenChange0) =
                 dirtyLoop committed pairs (current, [], changed0, False);
              seenChange = (seenChange0 \<or> (\<exists>b \<in> set (map snd changed). b));
              s3 = s2\<lparr>skToData := (skToData s2)(sk \<mapsto> current'),
                      skToChanged := AList.update sk changed (skToChanged s2)\<rparr>;
              s4 = (if seenChange then
                      let s' = setDirty sk s3 in
                      if autoCommit s' then queueCommitChanges s' else s'
                    else
                      let s' = setStatus sk (status AND NOT DIRTY) s3 in
                      s'\<lparr>skToCommitted := (skToCommitted s')(sk := None),
                         skToChanged := AList.delete sk (skToChanged s')\<rparr>)
          in (True, recordSetWasModified (skToType s4 sk) (notifyRecordOfChanges sk changedKeys s4))
      else
        let (current', changedKeys) = cleanLoop pairs (current, []);
            s2 = s1\<lparr>skToData := (skToData s1)(sk \<mapsto> current')\<rparr>
        in (True, recordSetWasModified (skToType s2 sk) (notifyRecordOfChanges sk changedKeys s2)))"

definition setHash :: "storeKey \<Rightarrow> hash option \<Rightarrow> bool \<Rightarrow> store \<Rightarrow> bool \<times> store" where
  "setHash sk data changeIsDirty s = updateHash sk data changeIsDirty s"

definition getHash :: "store \<Rightarrow> storeKey \<Rightarrow> hash option" where
  "getHash s sk = skToData s sk"

definition revertHash :: "storeKey \<Rightarrow> store \<Rightarrow> store" where
  "revertHash sk s =
     (case skToCommitted s sk of
        Some committed \<Rightarrow> snd (updateHash sk (Some committed) True s)
      | None \<Rightarrow> s)"

section \<open>Exceptions\<close>

text \<open>
  Reading a property of \<open>undefined\<close> (\<open>this._skToType[ storeKey ].className\<close> for a key
  with no type, \<open>committed[ key ]\<close> with no snapshot) throws a TypeError.  A method that
  can throw returns an outcome: the value and the store when it returns, or the store
  as the exception leaves it.
\<close>

datatype 'a outcome = Returned 'a store | Thrown store

fun final :: "'a outcome \<Rightarrow> store" where
  "final (Returned a s) = s"
| "final (Thrown s) = s"

fun returned :: "'a outcome \<Rightarrow> bool" where
  "returned (Returned a s) = True"
| "returned (Thrown s) = False"

definition andThen :: "'a outcome \<Rightarrow> ('a \<Rightarrow> store \<Rightarrow> 'b outcome) \<Rightarrow> 'b outcome" where
  "andThen r f = (case r of Returned a s \<Rightarrow> f a s | Thrown s \<Rightarrow> Thrown s)"

text \<open>A loop whose body can throw, with the local variables it carries.\<close>

fun foldE :: "('a \<Rightarrow> 'acc \<Rightarrow> store \<Rightarrow> 'acc outcome) \<Rightarrow> 'a list \<Rightarrow> 'acc \<Rightarrow> store \<Rightarrow> 'acc outcome" where
  "foldE f [] acc s = Returned acc s"
| "foldE f (x # xs) acc s =
     (case f x acc s of Returned acc' s' \<Rightarrow> foldE f xs acc' s' | Thrown s' \<Rightarrow> Thrown s')"

definition forEach :: "('a \<Rightarrow> store \<Rightarrow> unit outcome) \<Rightarrow> 'a list \<Rightarrow> store \<Rightarrow> unit outcome" where
  "forEach f xs s = foldE (\<lambda>x _. f x) xs () s"

section \<open>Key registry\<close>

definition lookupId :: "(storeKey \<times> jsval) list \<Rightarrow> storeKey \<Rightarrow> jsval" where
  "lookupId skToId sk = (case map_of skToId sk of None \<Rightarrow> Undefined | Some v \<Rightarrow> v)"

definition getStoreKey :: "rtype \<Rightarrow> jsval \<Rightarrow> store \<Rightarrow> storeKey \<times> store" where
  "getStoreKey T ident s =
     (let typeName = className T;
          ids = (case typeToIdToSk s typeName of Some m \<Rightarrow> m | None \<Rightarrow> []);
          s1 = s\<lparr>typeToIdToSk := (typeToIdToSk s)(typeName \<mapsto> ids)\<rparr>;
          storeKey = (if truthy ident
                      then (case map_of ids (toKey ident) of Some k \<Rightarrow> k | None \<Rightarrow> 0)
                      else 0)
      in
      if storeKey = 0 then
        let storeKey = nextKey s1;
            skToId = (case typeToSkToId s1 typeName of Some m \<Rightarrow> m | None \<Rightarrow> []);
            s2 = s1\<lparr>nextKey := Suc storeKey,
                    skToType := (skToType s1)(storeKey \<mapsto> T),
                    typeToSkToId := (typeToSkToId s1)(typeName \<mapsto> AList.update storeKey ident skToId)\<rparr>
        in (storeKey,
            if truthy ident
            then s2\<lparr>typeToIdToSk :=
                      (typeToIdToSk s2)(typeName \<mapsto> AList.update (toKey ident) storeKey ids)\<rparr>
            else s2)
      else (storeKey, s1))"

definition getIdFromStoreKey :: "store \<Rightarrow> storeKey \<Rightarrow> jsval" where
  "getIdFromStoreKey s sk =
     (case skToType s sk of
        None \<Rightarrow> Undefined
      | Some T \<Rightarrow> (case typeToSkToId s (className T) of
                     None \<Rightarrow> Undefined
                   | Some skToId \<Rightarrow> lookupId skToId sk))"

definition setIdForStoreKey :: "storeKey \<Rightarrow> jsval \<Rightarrow> store \<Rightarrow> unit outcome" where
  "setIdForStoreKey sk ident s =
     (case skToType s sk of
        None \<Rightarrow> Thrown s
      | Some T \<Rightarrow>
          (let typeName = className T in
           case typeToSkToId s typeName of
             None \<Rightarrow> Thrown s
           | Some skToId \<Rightarrow>
               (let oldId = lookupId skToId sk in
                if ident \<noteq> oldId then
                  let s1 = s\<lparr>typeToSkToId :=
                                (typeToSkToId s)(typeName \<mapsto> AList.update sk ident skToId)\<rparr>
                  in (case typeToIdToSk s1 typeName of
                        None \<Rightarrow> Thrown s1
                      | Some idToSk \<Rightarrow>
                          (let idToSk1 = (if truthy oldId then AList.delete (toKey oldId) idToSk
                                          else idToSk);
                               s2 = s1\<lparr>typeToIdToSk :=
                                      (typeToIdToSk s1)(typeName \<mapsto>
                                         AList.update (toKey ident) sk idToSk1)\<rparr>
                           in Returned ()
                                (snd (updateHash sk (Some [(primaryKey T, ident)]) False s2))))
                else Returned () s)))"

section \<open>Unloading\<close>

definition materialiseRecord :: "storeKey \<Rightarrow> store \<Rightarrow> store" where
  "materialiseRecord sk s = s\<lparr>skToRecord := (skToRecord s)(sk := True)\<rparr>"

definition mayUnloadRecord :: "store \<Rightarrow> storeKey \<Rightarrow> bool" where
  "mayUnloadRecord s sk =
     (let status = getStatus s sk in
      if status AND NOT (EMPTY OR READY OR DESTROYED) \<noteq> 0 \<or>
         (skToRecord s sk \<and> recordHasObservers s sk)
      then False
      else list_all (\<lambda>n. nestedMayUnload s n sk) (nestedStores s))"

definition unloadRecord :: "storeKey \<Rightarrow> store \<Rightarrow> bool outcome" where
  "unloadRecord sk s =
     (if \<not> mayUnloadRecord s sk then Returned False s
      else
        case skToType s sk of
          None \<Rightarrow> Thrown s
        | Some T \<Rightarrow>
            (let typeName = className T in
             case typeToSkToId s typeName of
               None \<Rightarrow> Thrown s
             | Some skToId \<Rightarrow>
                 (let ident = lookupId skToId sk;
                      s1 = s\<lparr>skToRecord := (skToRecord s)(sk := False),
                              skToData := (skToData s)(sk := None),
                              skToStatus := (skToStatus s)(sk := None),
                              skToType := (skToType s)(sk := None),
                              typeToSkToId :=
                                (typeToSkToId s)(typeName \<mapsto> AList.delete sk skToId)\<rparr>
                  in
                  if truthy ident then
                    (case typeToIdToSk s1 typeName of
                       None \<Rightarrow> Thrown s1
                     | Some idToSk \<Rightarrow>
                         Returned True
                           (s1\<lparr>typeToIdToSk :=
                                 (typeToIdToSk s1)(typeName \<mapsto> AList.delete (toKey ident) idToSk),
                               skToLastAccess := (skToLastAccess s1)(sk := None)\<rparr>))
                  else Returned True (s1\<lparr>skToLastAccess := (skToLastAccess s1)(sk := None)\<rparr>))))"

section \<open>Creating, destroying and fetching a record\<close>

text \<open>\<open>createRecord\<close> returns \<open>null\<close> when it refuses and the store otherwise.\<close>

definition createRecord :: "storeKey \<Rightarrow> hash option \<Rightarrow> store \<Rightarrow> bool \<times> store" where
  "createRecord sk data s =
     (let status = getStatus s sk;
          T = skToType s sk
      in
      if status \<noteq> EMPTY \<and> status \<noteq> DESTROYED then
        (False, emit [ConsoleLog CANNOT_CREATE_EXISTING_RECORD_ERROR] s)
      else
        let s1 = s\<lparr>skToData := (skToData s)(sk \<mapsto> (case data of Some d \<Rightarrow> d | None \<Rightarrow> [])),
                    skToStatus := (skToStatus s)(sk \<mapsto> READY OR NEW),
                    created := addKey sk (created s)\<rparr>;
            s2 = (if autoCommit s1 then queueCommitChanges s1 else s1)
        in (True, recordSetWasModified T s2))"

definition destroyRecord :: "storeKey \<Rightarrow> store \<Rightarrow> unit outcome" where
  "destroyRecord sk s =
     (let status = getStatus s sk in
      if status = READY OR NEW then
        andThen (unloadRecord sk (setStatus sk DESTROYED (s\<lparr>created := removeAll sk (created s)\<rparr>)))
          (\<lambda>_ s'. Returned () (recordSetWasModified (skToType s' sk) s'))
      else
        let s1 = (if status AND DIRTY \<noteq> 0 then
                    let s' = snd (setHash sk (skToCommitted s sk) False s) in
                    s'\<lparr>skToCommitted := (skToCommitted s')(sk := None),
                       skToChanged := AList.delete sk (skToChanged s')\<rparr>
                  else s);
            s2 = s1\<lparr>destroyed := addKey sk (destroyed s1)\<rparr>;
            s3 = setStatus sk (DESTROYED OR DIRTY OR (status AND (OBSOLETE OR NEW))) s2;
            s4 = (if autoCommit s3 then queueCommitChanges s3 else s3)
        in Returned () (recordSetWasModified (skToType s4 sk) s4))"

definition fetchHash :: "storeKey \<Rightarrow> store \<Rightarrow> unit outcome" where
  "fetchHash sk s =
     (let status = getStatus s sk in
      if status AND (LOADING OR NEW OR DESTROYED OR NON_EXISTENT) \<noteq> 0 then Returned () s
      else
        case skToType s sk of
          None \<Rightarrow> Thrown s
        | Some T \<Rightarrow>
            (case typeToSkToId s (className T) of
               None \<Rightarrow> Thrown s
             | Some skToId \<Rightarrow>
                 (let ident = lookupId skToId sk in
                  if status AND EMPTY \<noteq> 0 then
                    Returned () (setStatus sk (EMPTY OR LOADING) (emit [SourceFetchRecord T ident] s))
                  else
                    Returned () (setLoading sk (emit [SourceRefreshRecord T ident] s)))))"

section \<open>Committing and discarding\<close>

definition emptyChangeset :: changeset where
  "emptyChangeset = \<lparr> createStoreKeys = [], createRecords = [], updateStoreKeys = [],
     updateRecords = [], updateChanges = [], destroyStoreKeys = [], destroyIds = [] \<rparr>"

definition getEntry :: "string \<Rightarrow> (string \<times> changeset) list \<Rightarrow> changeset" where
  "getEntry type changes = (case map_of changes type of Some e \<Rightarrow> e | None \<Rightarrow> emptyChangeset)"

definition commitCreated ::
  "storeKey \<Rightarrow> (string \<times> changeset) list \<Rightarrow> store \<Rightarrow> (string \<times> changeset) list outcome" where
  "commitCreated sk changes s =
     (let data = skToData s sk in
      case skToType s sk of
        None \<Rightarrow> Thrown s
      | Some T \<Rightarrow>
          (let type = className T;
               entry = getEntry type changes
           in Returned
                (AList.update type
                   (entry\<lparr>createStoreKeys := createStoreKeys entry @ [sk],
                          createRecords := createRecords entry @ [data]\<rparr>) changes)
                (setCommitting sk s)))"

definition commitChanged ::
  "storeKey \<times> changedMap \<Rightarrow> (string \<times> changeset) list \<times> (storeKey \<times> changedMap) list \<Rightarrow> store \<Rightarrow>
   ((string \<times> changeset) list \<times> (storeKey \<times> changedMap) list) outcome" where
  "commitChanged p acc s =
     (let sk = fst p; changed = snd p; changes = fst acc; newSkToChanged = snd acc;
          status = rawStatus s sk;
          data = skToData s sk
      in
      case skToType s sk of
        None \<Rightarrow> Thrown s
      | Some T \<Rightarrow>
          (let type = className T in
           if status AND COMMITTING \<noteq> 0 then
             Returned (changes, AList.update sk changed newSkToChanged) s
           else
             let s1 = s\<lparr>skToRollback := (skToRollback s)(sk := skToCommitted s sk),
                         skToCommitted := (skToCommitted s)(sk := None)\<rparr>;
                 entry = getEntry type changes
             in Returned
                  (AList.update type
                     (entry\<lparr>updateStoreKeys := updateStoreKeys entry @ [sk],
                            updateRecords := updateRecords entry @ [data],
                            updateChanges := updateChanges entry @ [changed]\<rparr>) changes,
                   newSkToChanged)
                  (setStatus sk ((status AND NOT DIRTY) OR COMMITTING) s1)))"

definition commitDestroyed ::
  "storeKey \<Rightarrow> (string \<times> changeset) list \<times> storeKey list \<Rightarrow> store \<Rightarrow>
   ((string \<times> changeset) list \<times> storeKey list) outcome" where
  "commitDestroyed sk acc s =
     (let changes = fst acc; newDestroyed = snd acc in
      case skToType s sk of
        None \<Rightarrow> Thrown s
      | Some T \<Rightarrow>
          (let type = className T in
           case typeToSkToId s type of
             None \<Rightarrow> Thrown s
           | Some skToId \<Rightarrow>
               (let ident = lookupId skToId sk in
                if rawStatus s sk AND NEW \<noteq> 0 then
                  Returned (changes, addKey sk newDestroyed) s
                else
                  let entry = getEntry type changes in
                  Returned
                    (AList.update type
                       (entry\<lparr>destroyStoreKeys := destroyStoreKeys entry @ [sk],
                              destroyIds := destroyIds entry @ [ident]\<rparr>) changes,
                     newDestroyed)
                    (setStatus sk (DESTROYED OR COMMITTING) s))))"

text \<open>The body of \<open>commitChanges\<close>, which the run loop runs.\<close>

definition commitChanges :: "store \<Rightarrow> unit outcome" where
  "commitChanges s =
     andThen (foldE commitCreated (created s) [] s) (\<lambda>changes1 s1.
     andThen (foldE commitChanged (skToChanged s) (changes1, []) s1) (\<lambda>(changes2, newSkToChanged) s2.
     andThen (foldE commitDestroyed (destroyed s) (changes2, []) s2) (\<lambda>(changes, newDestroyed) s3.
       Returned ()
         (emit [SourceCommitChanges changes]
            (s3\<lparr>skToChanged := newSkToChanged, created := [], destroyed := newDestroyed\<rparr>)))))"

definition discardCreated :: "storeKey \<Rightarrow> store \<Rightarrow> unit outcome" where
  "discardCreated sk s =
     andThen (unloadRecord sk (setStatus sk DESTROYED s)) (\<lambda>_ s'. Returned () s')"

definition discardChanged :: "storeKey \<Rightarrow> store \<Rightarrow> unit outcome" where
  "discardChanged sk s =
     (let s1 = snd (setHash sk (skToCommitted s sk) False s) in
      Returned ()
        (setStatus sk (READY OR (getStatus s1 sk AND (OBSOLETE OR LOADING OR COMMITTING))) s1))"

definition discardDestroyed :: "storeKey \<Rightarrow> store \<Rightarrow> unit outcome" where
  "discardDestroyed sk s =
     Returned () (setStatus sk (READY OR (getStatus s sk AND OBSOLETE)) s)"

definition discardChanges :: "store \<Rightarrow> unit outcome" where
  "discardChanges s =
     andThen (forEach discardCreated (created s) s) (\<lambda>_ s1.
     andThen (forEach discardChanged (map fst (skToChanged s)) s1) (\<lambda>_ s2.
     andThen (forEach discardDestroyed (destroyed s)
                (s2\<lparr>skToChanged := [], skToCommitted := Map.empty\<rparr>)) (\<lambda>_ s3.
       Returned () (recordSetWasModified None (s3\<lparr>created := [], destroyed := []\<rparr>)))))"

definition hasChanges :: "store \<Rightarrow> bool" where
  "hasChanges s = (created s \<noteq> [] \<or> skToChanged s \<noteq> [] \<or> destroyed s \<noteq> [])"

section \<open>Source callbacks\<close>

text \<open>
  \<open>NS.extend\<close> applied to values that may be \<open>undefined\<close>: enumerating \<open>undefined\<close> extras
  assigns nothing and returns the base as it is; assigning a property to an
  \<open>undefined\<close> base throws (\<open>None\<close>).
\<close>

definition extendOpt :: "hash option \<Rightarrow> hash option \<Rightarrow> hash option option" where
  "extendOpt base extras =
     (case extras of
        None \<Rightarrow> Some base
      | Some [] \<Rightarrow> Some base
      | Some (p # ps) \<Rightarrow> (case base of None \<Rightarrow> None | Some b \<Rightarrow> Some (Some (nsExtend b (p # ps)))))"

text \<open>
  The rebase loop of \<open>sourceDidFetchUpdates\<close> tests \<open>key in oldChanged\<close>.  The operator
  \<open>in\<close> answers true for the own keys of the object and for the names every object
  inherits from \<open>Object.prototype\<close>; reading such a name from an object that has no own
  property of that name gives the inherited member, which differs (\<open>!==\<close>) from every
  attribute value.
\<close>

definition objectPrototypeNames :: "string list" where
  "objectPrototypeNames =
     [''constructor'', ''toString'', ''toLocaleString'', ''valueOf'', ''hasOwnProperty'',
      ''isPrototypeOf'', ''propertyIsEnumerable'', ''__proto__'', ''__defineGetter__'',
      ''__defineSetter__'', ''__lookupGetter__'', ''__lookupSetter__'']"

definition hasProperty :: "string \<Rightarrow> (string \<times> 'v) list \<Rightarrow> bool" where
  "hasProperty key obj = (key \<in> fst ` set obj \<or> key \<in> set objectPrototypeNames)"

text \<open>\<open>val !== obj[ key ]\<close> for an attribute value \<open>val\<close>.\<close>

definition differsFrom :: "jsval \<Rightarrow> hash \<Rightarrow> string \<Rightarrow> bool" where
  "differsFrom val obj key =
     (if key \<in> fst ` set obj then val \<noteq> getAttr obj key
      else if key \<in> set objectPrototypeNames then True
      else val \<noteq> Undefined)"

text \<open>
  The rebase loop over the keys of \<open>oldData\<close>; the accumulator is
  \<open>(newData, newChanged, clean)\<close>.
\<close>

fun rebaseLoop ::
  "changedMap \<Rightarrow> hash \<Rightarrow> hash \<Rightarrow> hash \<times> changedMap \<times> bool \<Rightarrow> hash \<times> changedMap \<times> bool" where
  "rebaseLoop oldChanged update [] acc = acc"
| "rebaseLoop oldChanged update ((key, val) # rest) (newData, newChanged, clean) =
     (if hasProperty key oldChanged then
        (if differsFrom val update key then
           rebaseLoop oldChanged update rest
             (AList.update key val newData, AList.update key True newChanged, False)
         else
           rebaseLoop oldChanged update rest (AList.update key val newData, newChanged, clean))
      else
        rebaseLoop oldChanged update rest
          (AList.update key (getAttr update key) newData, newChanged, clean))"

text \<open>One turn of the loop of \<open>sourceDidFetchUpdates\<close>, for the update of one id.\<close>

definition fetchUpdate :: "rtype \<Rightarrow> string \<times> hash \<Rightarrow> store \<Rightarrow> unit outcome" where
  "fetchUpdate T p s =
     (case typeToIdToSk s (className T) of
        None \<Rightarrow> Thrown s
      | Some idToSk \<Rightarrow>
          (case map_of idToSk (fst p) of
             None \<Rightarrow> Returned () s
           | Some sk \<Rightarrow>
               (let status = rawStatus s sk in
                if status AND READY = 0 then Returned () s
                else
                  case (if status AND COMMITTING \<noteq> 0
                        then extendOpt (skToRollback s sk) (Some (snd p))
                        else Some (Some (snd p))) of
                    None \<Rightarrow> Thrown s
                  | Some update1 \<Rightarrow>
                      (let s1 = (if status AND COMMITTING \<noteq> 0
                                 then s\<lparr>skToRollback := (skToRollback s)(sk := None)\<rparr> else s)
                       in
                       if status AND DIRTY \<noteq> 0 then
                         (case extendOpt (skToCommitted s1 sk) update1 of
                            None \<Rightarrow> Thrown s1
                          | Some update \<Rightarrow>
                              (let s2 = (if skToCommitted s1 sk = None then s1
                                         else s1\<lparr>skToCommitted := (skToCommitted s1)(sk := update)\<rparr>);
                                   oldData = (case skToData s2 sk of Some d \<Rightarrow> d | None \<Rightarrow> []);
                                   oldChanged = map_of (skToChanged s2) sk;
                                   dropped = s2\<lparr>skToChanged := AList.delete sk (skToChanged s2),
                                                skToCommitted := (skToCommitted s2)(sk := None)\<rparr>
                               in
                               if rebaseConflicts s2 then
                                 (if oldData \<noteq> [] \<and> (oldChanged = None \<or> update = None) then Thrown s2
                                  else
                                    let (newData, newChanged, clean) =
                                          rebaseLoop (case oldChanged of Some c \<Rightarrow> c | None \<Rightarrow> [])
                                            (case update of Some u \<Rightarrow> u | None \<Rightarrow> []) oldData
                                            ([], [], True)
                                    in
                                    if \<not> clean then
                                      Returned ()
                                        (setStatus sk (READY OR DIRTY)
                                           (snd (setHash sk (Some newData) False
                                              (s2\<lparr>skToChanged := AList.update sk newChanged (skToChanged s2),
                                                  skToCommitted := (skToCommitted s2)(sk := update)\<rparr>))))
                                    else
                                      Returned ()
                                        (setStatus sk READY (snd (updateHash sk update False dropped))))
                               else
                                 Returned ()
                                   (setStatus sk READY (snd (updateHash sk update False dropped)))))
                       else
                         Returned () (setStatus sk READY (snd (updateHash sk update1 False s1)))))))"

definition sourceDidFetchUpdates :: "rtype \<Rightarrow> (string \<times> hash) list \<Rightarrow> store \<Rightarrow> unit outcome" where
  "sourceDidFetchUpdates T updates s =
     andThen (forEach (fetchUpdate T) updates s)
       (\<lambda>_ s'. Returned () (recordSetWasModified (Some T) s'))"

text \<open>Dropping the local edits of a dirty record, as the destroy callbacks do.\<close>

definition dropDirty :: "storeKey \<Rightarrow> status \<Rightarrow> store \<Rightarrow> store" where
  "dropDirty sk status s =
     (if status AND DIRTY \<noteq> 0 then
        let s' = snd (setHash sk (skToCommitted s sk) False s) in
        s'\<lparr>skToCommitted := (skToCommitted s')(sk := None),
           skToChanged := AList.delete sk (skToChanged s')\<rparr>
      else s)"

definition destroyOne :: "rtype \<Rightarrow> jsval \<Rightarrow> store \<Rightarrow> unit outcome" where
  "destroyOne T ident s =
     (let (sk, s1) = getStoreKey T ident s;
          status = getStatus s1 sk
      in andThen (unloadRecord sk (setStatus sk DESTROYED (dropDirty sk status s1)))
           (\<lambda>_ s'. Returned () s'))"

definition sourceDidDestroyRecords :: "rtype \<Rightarrow> jsval list \<Rightarrow> store \<Rightarrow> unit outcome" where
  "sourceDidDestroyRecords T idList s =
     andThen (forEach (destroyOne T) (rev idList) s)
       (\<lambda>_ s'. Returned () (recordSetWasModified (Some T) s'))"

definition couldNotFindOne :: "rtype \<Rightarrow> jsval \<Rightarrow> store \<Rightarrow> unit outcome" where
  "couldNotFindOne T ident s =
     (let (sk, s1) = getStoreKey T ident s;
          status = getStatus s1 sk
      in
      if status AND EMPTY \<noteq> 0 then Returned () (setStatus sk NON_EXISTENT s1)
      else andThen (unloadRecord sk (setStatus sk DESTROYED (dropDirty sk status s1)))
             (\<lambda>_ s'. Returned () s'))"

definition sourceCouldNotFindRecords :: "rtype \<Rightarrow> jsval list \<Rightarrow> store \<Rightarrow> unit outcome" where
  "sourceCouldNotFindRecords T idList s =
     andThen (forEach (couldNotFindOne T) (rev idList) s)
       (\<lambda>_ s'. Returned () (recordSetWasModified (Some T) s'))"

text \<open>
  One turn of the loop of \<open>sourceDidFetchRecords\<close>; the accumulator is \<open>(seen, updates)\<close>.
  \<open>now\<close> is \<open>Date.now()\<close>.
\<close>

definition fetchRecord ::
  "rtype \<Rightarrow> nat \<Rightarrow> hash \<Rightarrow> string list \<times> (string \<times> hash) list \<Rightarrow> store \<Rightarrow>
   (string list \<times> (string \<times> hash) list) outcome" where
  "fetchRecord T now data acc s =
     (let ident = getAttr data (primaryKey T);
          seen = addKey (toKey ident) (fst acc);
          (sk, s1) = getStoreKey T ident s;
          status = getStatus s1 sk
      in
      if status AND READY \<noteq> 0 then
        Returned (seen, AList.update (toKey ident) data (snd acc)) s1
      else if status AND EMPTY = 0 then
        Returned (seen, snd acc) (emit [ConsoleLog FETCHED_IS_DESTROYED_OR_NON_EXISTENT_ERROR] s1)
      else
        let s2 = setStatus sk READY (snd (setHash sk (Some data) False s1)) in
        Returned (seen, snd acc) (s2\<lparr>skToLastAccess := (skToLastAccess s2)(sk \<mapsto> now)\<rparr>))"

definition sourceDidFetchRecords :: "rtype \<Rightarrow> hash list \<Rightarrow> bool \<Rightarrow> nat \<Rightarrow> store \<Rightarrow> unit outcome" where
  "sourceDidFetchRecords T records all now s =
     andThen (foldE (fetchRecord T now) (rev records) ([], []) s) (\<lambda>(seen, updates) s1.
     andThen
       (if all then
          let idToSk = (case typeToIdToSk s1 (className T) of Some m \<Rightarrow> m | None \<Rightarrow> []);
              gone = filter (\<lambda>i. i \<notin> set seen) (map fst idToSk)
          in if gone \<noteq> [] then sourceDidDestroyRecords T (map JStr gone) s1 else Returned () s1
        else Returned () s1) (\<lambda>_ s2.
       sourceDidFetchUpdates T updates s2))"

definition sourceDidFetchAllRecords :: "rtype \<Rightarrow> hash list \<Rightarrow> nat \<Rightarrow> store \<Rightarrow> unit outcome" where
  "sourceDidFetchAllRecords T records now s = sourceDidFetchRecords T records True now s"

definition hasUpdatesOne :: "rtype \<Rightarrow> jsval \<Rightarrow> store \<Rightarrow> unit outcome" where
  "hasUpdatesOne T ident s =
     (let idToSk = (case typeToIdToSk s (className T) of Some m \<Rightarrow> m | None \<Rightarrow> []) in
      case map_of idToSk (toKey ident) of
        None \<Rightarrow> Returned () s
      | Some sk \<Rightarrow>
          if rawStatus s sk AND READY \<noteq> 0 then Returned () (setObsolete sk s) else Returned () s)"

definition sourceHasUpdatesForRecords :: "rtype \<Rightarrow> jsval list \<Rightarrow> store \<Rightarrow> unit outcome" where
  "sourceHasUpdatesForRecords T idList s = forEach (hasUpdatesOne T) (rev idList) s"

subsection \<open>Answers to a commit\<close>

definition commitCreateOne :: "storeKey \<times> jsval \<Rightarrow> store \<Rightarrow> unit outcome" where
  "commitCreateOne p s =
     (let sk = fst p; status = getStatus s sk in
      if status AND NEW \<noteq> 0 then
        andThen (setIdForStoreKey sk (snd p) s)
          (\<lambda>_ s'. Returned () (setStatus sk (status AND NOT (NEW OR COMMITTING)) s'))
      else Returned () (emit [ConsoleLog SOURCE_COMMIT_CREATE_MISMATCH_ERROR] s))"

definition sourceDidCommitCreate :: "(storeKey \<times> jsval) list \<Rightarrow> store \<Rightarrow> unit outcome" where
  "sourceDidCommitCreate skToId s = forEach commitCreateOne skToId s"

definition notCreateOne :: "storeKey \<Rightarrow> store \<Rightarrow> unit outcome" where
  "notCreateOne sk s =
     (let status = getStatus s sk in
      if status AND DESTROYED \<noteq> 0 then
        andThen (unloadRecord sk (setStatus sk DESTROYED s)) (\<lambda>_ s'. Returned () s')
      else
        let s1 = (if status AND DIRTY \<noteq> 0
                  then s\<lparr>skToCommitted := (skToCommitted s)(sk := None),
                         skToChanged := AList.delete sk (skToChanged s)\<rparr>
                  else s);
            s2 = setStatus sk (READY OR NEW) s1
        in Returned () (s2\<lparr>created := addKey sk (created s2)\<rparr>))"

definition sourceDidNotCreate :: "storeKey list \<Rightarrow> store \<Rightarrow> unit outcome" where
  "sourceDidNotCreate storeKeys s = forEach notCreateOne (rev storeKeys) s"

definition commitUpdateOne :: "storeKey \<Rightarrow> store \<Rightarrow> unit outcome" where
  "commitUpdateOne sk s =
     (let status = getStatus s sk;
          s1 = s\<lparr>skToRollback := (skToRollback s)(sk := None)\<rparr>
      in
      if status AND READY = 0 then Returned () s1
      else if status AND COMMITTING = 0 then Returned () (setObsolete sk s1)
      else Returned () (setStatus sk (status AND NOT COMMITTING) s1))"

definition sourceDidCommitUpdate :: "storeKey list \<Rightarrow> store \<Rightarrow> unit outcome" where
  "sourceDidCommitUpdate storeKeys s = forEach commitUpdateOne (rev storeKeys) s"

text \<open>
  The loop of \<open>sourceDidNotUpdate\<close> over the keys of the current data, building the new
  \<open>changed\<close> map.
\<close>

fun notUpdateLoop :: "hash \<Rightarrow> hash \<Rightarrow> changedMap \<Rightarrow> changedMap" where
  "notUpdateLoop committed [] changed = changed"
| "notUpdateLoop committed ((key, val) # rest) changed =
     notUpdateLoop committed rest
       (if val \<noteq> getAttr committed key then AList.update key True changed else changed)"

definition notUpdateOne :: "storeKey \<Rightarrow> store \<Rightarrow> unit outcome" where
  "notUpdateOne sk s =
     (let status = getStatus s sk in
      if status AND READY = 0 then Returned () s
      else
        let committed = skToRollback s sk;
            s1 = s\<lparr>skToCommitted := (skToCommitted s)(sk := committed),
                    skToRollback := (skToRollback s)(sk := None)\<rparr>;
            current = (case skToData s1 sk of Some c \<Rightarrow> c | None \<Rightarrow> [])
        in
        if status AND DIRTY \<noteq> 0 \<and> current \<noteq> [] \<and> committed = None then Thrown s1
        else
          let s2 = (if status AND DIRTY \<noteq> 0 \<and> current \<noteq> [] then
                      s1\<lparr>skToChanged :=
                           AList.update sk
                             (notUpdateLoop (case committed of Some c \<Rightarrow> c | None \<Rightarrow> []) current [])
                             (skToChanged s1)\<rparr>
                    else s1)
          in
          if status AND COMMITTING = 0 then Returned () (setObsolete sk s2)
          else Returned () (setStatus sk ((status AND NOT COMMITTING) OR DIRTY) s2))"

definition sourceDidNotUpdate :: "storeKey list \<Rightarrow> store \<Rightarrow> unit outcome" where
  "sourceDidNotUpdate storeKeys s =
     andThen (forEach notUpdateOne (rev storeKeys) s)
       (\<lambda>_ s'. Returned () (recordSetWasModified None s'))"

definition commitDestroyOne :: "storeKey \<Rightarrow> store \<Rightarrow> unit outcome" where
  "commitDestroyOne sk s =
     (let status = getStatus s sk;
          s1 = (if status AND DESTROYED = 0
                then emit [ConsoleLog SOURCE_COMMIT_DESTROY_MISMATCH_ERROR] s else s)
      in andThen (unloadRecord sk (setStatus sk DESTROYED s1)) (\<lambda>_ s'. Returned () s'))"

definition sourceDidCommitDestroy :: "storeKey list \<Rightarrow> store \<Rightarrow> unit outcome" where
  "sourceDidCommitDestroy storeKeys s = forEach commitDestroyOne (rev storeKeys) s"

definition notDestroyOne :: "storeKey \<Rightarrow> store \<Rightarrow> unit outcome" where
  "notDestroyOne sk s =
     (let status = getStatus s sk;
          s1 = (if status AND DESTROYED = 0
                then emit [ConsoleLog SOURCE_COMMIT_DESTROY_MISMATCH_ERROR] s else s);
          s2 = setStatus sk (DESTROYED OR DIRTY) s1
      in Returned () (s2\<lparr>destroyed := addKey sk (destroyed s2)\<rparr>))"

definition sourceDidNotDestroy :: "storeKey list \<Rightarrow> store \<Rightarrow> unit outcome" where
  "sourceDidNotDestroy storeKeys s = forEach notDestroyOne (rev storeKeys) s"

definition errorOne :: "storeKey \<Rightarrow> store \<Rightarrow> unit outcome" where
  "errorOne sk s =
     (let status = getStatus s sk in
      andThen
        (if status AND NEW \<noteq> 0 then
           andThen (unloadRecord sk (setStatus sk DESTROYED s)) (\<lambda>_ s'. Returned () s')
         else
           let s1 = snd (setHash sk (skToRollback s sk) False s);
               s2 = s1\<lparr>skToChanged := AList.delete sk (skToChanged s1),
                       skToCommitted := (skToCommitted s1)(sk := None),
                       skToRollback := (skToRollback s1)(sk := None)\<rparr>
           in Returned () (setStatus sk (READY OR OBSOLETE) s2))
        (\<lambda>_ s'. Returned () (recordSetWasModified (skToType s' sk) s')))"

definition sourceDidError :: "storeKey list \<Rightarrow> store \<Rightarrow> unit outcome" where
  "sourceDidError storeKeys s = forEach errorOne (rev storeKeys) s"

section \<open>Client API\<close>

definition getRecordStatus :: "store \<Rightarrow> rtype \<Rightarrow> jsval \<Rightarrow> status" where
  "getRecordStatus s T ident =
     (case typeToIdToSk s (className T) of
        None \<Rightarrow> EMPTY
      | Some idToSk \<Rightarrow>
          (case map_of idToSk (toKey ident) of None \<Rightarrow> EMPTY | Some sk \<Rightarrow> getStatus s sk))"

text \<open>\<open>newRecord\<close> for a plain data hash (not a record instance).\<close>

definition newRecord :: "rtype \<Rightarrow> hash \<Rightarrow> store \<Rightarrow> storeKey \<times> store" where
  "newRecord T data s =
     (let (sk, s1) = getStoreKey T (getAttr data (primaryKey T)) s
      in (sk, materialiseRecord sk (snd (createRecord sk (Some data) s1))))"

text \<open>
  \<open>getRecord\<close> takes an id, or a store key written after a \<open>#\<close>; the two forms are the
  two constructors.
\<close>

datatype recordRef = ById string | ByKey storeKey

definition getRecord :: "rtype \<Rightarrow> recordRef \<Rightarrow> bool \<Rightarrow> nat \<Rightarrow> store \<Rightarrow> storeKey outcome" where
  "getRecord T ref doNotFetch now s =
     (let (sk, s1) = (case ref of ByKey k \<Rightarrow> (k, s) | ById i \<Rightarrow> getStoreKey T (JStr i) s);
          s2 = materialiseRecord sk s1
      in
      andThen (if \<not> doNotFetch \<and> getStatus s2 sk = EMPTY then fetchHash sk s2 else Returned () s2)
        (\<lambda>_ s3. Returned sk (s3\<lparr>skToLastAccess := (skToLastAccess s3)(sk \<mapsto> now)\<rparr>)))"

definition getAllLoadedRecords :: "rtype \<Rightarrow> store \<Rightarrow> storeKey list \<times> store" where
  "getAllLoadedRecords T s =
     (let skToId = (case typeToSkToId s (className T) of Some m \<Rightarrow> m | None \<Rightarrow> []);
          ready = filter (\<lambda>sk. rawStatus s sk AND READY \<noteq> 0) (map fst skToId)
      in (ready, fold materialiseRecord ready s))"

definition addNested :: "nat \<Rightarrow> store \<Rightarrow> store" where
  "addNested n s = s\<lparr>nestedStores := nestedStores s @ [n]\<rparr>"

definition removeNested :: "nat \<Rightarrow> store \<Rightarrow> store" where
  "removeNested n s = s\<lparr>nestedStores := remove1 n (nestedStores s)\<rparr>"

section \<open>The rebase, in the spec's words\<close>

text \<open>
  The spec on rebasing a dirty record over the merged update \<open>update'\<close>: for each
  attribute key of the data, if the key was locally changed (it has an entry in the
  changed map) and the local value differs from \<open>update'[k]\<close>, it remains dirty against
  the new base; otherwise the base value wins.  \<open>editSurvives\<close> says whether the attribute
  \<open>p\<close> of the data remains dirty, \<open>rebasedAttr\<close> is the attribute after the rebase.
\<close>

definition editSurvives :: "changedMap \<Rightarrow> hash \<Rightarrow> string \<times> jsval \<Rightarrow> bool" where
  "editSurvives oldChanged update p =
     (fst p \<in> fst ` set oldChanged \<and> snd p \<noteq> getAttr update (fst p))"

definition rebasedAttr :: "changedMap \<Rightarrow> hash \<Rightarrow> string \<times> jsval \<Rightarrow> string \<times> jsval" where
  "rebasedAttr oldChanged update p =
     (fst p, if editSurvives oldChanged update p then snd p else getAttr update (fst p))"

section \<open>Repeating a callback\<close>




text \<open>The status \<open>sourceDidCommitUpdate\<close> gives a record whose status was \<open>st\<close>.\<close>

definition acked :: "status \<Rightarrow> status" where
  "acked st = (if st AND READY = 0 then st
               else if st AND COMMITTING = 0 then st OR OBSOLETE
               else st AND NOT COMMITTING)"



section \<open>Scenarios\<close>

text \<open>
  Concrete runs of the store, each from the empty store \<open>init\<close>.  One record of type
  \<open>T\<close> with id \<open>a\<close> is fetched, which gives it store key 1.
\<close>

definition T0 :: rtype where
  "T0 = \<lparr> className = ''T'', primaryKey = ''id'' \<rparr>"

text \<open>The edit-commit-update race: load, edit, commit, server update, acknowledgement.\<close>

definition raceLoaded :: store where
  "raceLoaded =
     final (sourceDidFetchRecords T0 [[(''id'', JStr ''a''), (''x'', JNum 1)]] False 0 init)"

definition raceEdited :: store where
  "raceEdited = snd (updateHash 1 (Some [(''x'', JNum 2)]) True raceLoaded)"

definition raceCommitting :: store where
  "raceCommitting = final (commitChanges raceEdited)"

definition racePushed :: store where
  "racePushed = final (sourceDidFetchUpdates T0 [(''a'', [(''x'', JNum 3)])] raceCommitting)"

definition raceAcked :: store where
  "raceAcked = final (sourceDidCommitUpdate [1] racePushed)"

text \<open>
  A record asked for but not fetched: store key 1, materialised, status EMPTY, no data.
  \<open>watchedStore\<close> has a nested store as well.
\<close>

definition unreadyStore :: store where
  "unreadyStore = final (getRecord T0 (ById ''a'') True 0 init)"

definition watchedStore :: store where
  "watchedStore = addNested 7 unreadyStore"

text \<open>The commit of the edited record fails transiently, and the next commit runs.\<close>

definition raceNotUpdated :: store where
  "raceNotUpdated = final (sourceDidNotUpdate [1] raceCommitting)"

definition raceRecommitted :: store where
  "raceRecommitted = final (commitChanges raceNotUpdated)"

text \<open>A record created locally and not yet committed: store key 1, status READY|NEW.\<close>

definition createdStore :: store where
  "createdStore = snd (newRecord T0 [(''name'', JStr ''n'')] init)"

text \<open>The rebase scenario S3: a record \<open>{a:1, b:1}\<close> is loaded and \<open>a\<close> is edited to 2.\<close>

definition rebaseLoaded :: store where
  "rebaseLoaded =
     final (sourceDidFetchRecords T0
              [[(''id'', JStr ''a''), (''a'', JNum 1), (''b'', JNum 1)]] False 0 init)"

definition rebaseEdited :: store where
  "rebaseEdited = snd (updateHash 1 (Some [(''a'', JNum 2)]) True rebaseLoaded)"

text \<open>
  Two more rebases.  A record with an attribute named \<open>constructor\<close>, with \<open>b\<close> edited;
  and the record of the race, edited, with an attribute \<open>y\<close> written since by a write
  that is not dirty.
\<close>

definition protoEdited :: store where
  "protoEdited =
     snd (updateHash 1 (Some [(''b'', JNum 2)]) True
       (final (sourceDidFetchRecords T0
          [[(''id'', JStr ''a''), (''constructor'', JNum 1), (''b'', JNum 1)]] False 0 init)))"

definition cleanEdited :: store where
  "cleanEdited = snd (updateHash 1 (Some [(''y'', JNum 5)]) False raceEdited)"


text \<open>
  Stores with pending changes: \<open>addedAttr\<close> has the loaded record edited by a patch that
  adds an attribute; \<open>observedCreated\<close> has a created record whose materialised record
  object has observers; \<open>discardStart\<close> has one dirty record (key 1), one record pending
  destroy (key 2) and one created record (key 3).
\<close>

definition addedAttr :: store where
  "addedAttr = snd (updateHash 1 (Some [(''y'', JNum 2)]) True raceLoaded)"

definition observedCreated :: store where
  "observedCreated = createdStore\<lparr>recordHasObservers := (\<lambda>k. k = 1)\<rparr>"

definition discardStart :: store where
  "discardStart =
     snd (newRecord T0 [(''name'', JStr ''n'')]
       (final (destroyRecord 2
         (snd (updateHash 1 (Some [(''x'', JNum 2)]) True
           (final (sourceDidFetchRecords T0
              [[(''id'', JStr ''b''), (''x'', JNum 5)], [(''id'', JStr ''a''), (''x'', JNum 1)]]
              False 0 init)))))))"

text \<open>The tables of \<open>discardStart\<close>, written out.\<close>

definition pendingStore :: store where
  "pendingStore = init\<lparr>
     skToRecord := (\<lambda>k. k = 3),
     skToData := [1 \<mapsto> [(''id'', JStr ''a''), (''x'', JNum 2)],
                  2 \<mapsto> [(''id'', JStr ''b''), (''x'', JNum 5)],
                  3 \<mapsto> [(''name'', JStr ''n'')]],
     skToStatus := [1 \<mapsto> READY OR DIRTY, 2 \<mapsto> DESTROYED OR DIRTY, 3 \<mapsto> READY OR NEW],
     skToType := [1 \<mapsto> T0, 2 \<mapsto> T0, 3 \<mapsto> T0],
     typeToSkToId := [''T'' \<mapsto> [(1, JStr ''a''), (2, JStr ''b''), (3, Undefined)]],
     typeToIdToSk := [''T'' \<mapsto> [(''a'', 1), (''b'', 2)]],
     skToChanged := [(1, [(''x'', True)])],
     skToCommitted := [1 \<mapsto> [(''id'', JStr ''a''), (''x'', JNum 1)]],
     created := [3], destroyed := [2], nextKey := 4\<rparr>"

section \<open>Calls on the store\<close>

text \<open>
  The methods of the store that change it, as the client, the run loop and the source
  call them, each with its arguments.  \<open>CommitChanges\<close> is the body that the run loop
  runs.  The last five are changes around the store that its methods read: the two
  settings, the observers of a record object, the answers of the nested stores to
  \<open>mayUnloadRecord\<close>, and the query tables, which \<open>addQuery\<close>, \<open>removeQuery\<close> and
  \<open>refreshLiveQueries\<close> alone write.
\<close>

datatype call =
    AddNested nat
  | RemoveNested nat
  | GetStoreKey rtype jsval
  | SetIdForStoreKey storeKey jsval
  | NewRecord rtype hash
  | GetRecord rtype recordRef bool nat
  | CommitChanges
  | DiscardChanges
  | SetStatus storeKey status
  | SetDirty storeKey
  | SetLoading storeKey
  | SetCommitting storeKey
  | SetObsolete storeKey
  | MaterialiseRecord storeKey
  | UnloadRecord storeKey
  | CreateRecord storeKey "hash option"
  | DestroyRecord storeKey
  | FetchHash storeKey
  | SetHash storeKey "hash option" bool
  | UpdateHash storeKey "hash option" bool
  | RevertHash storeKey
  | SourceDidFetchAllRecords rtype "hash list" nat
  | SourceDidFetchRecords rtype "hash list" bool nat
  | SourceHasUpdatesForRecords rtype "jsval list"
  | SourceDidFetchUpdates rtype "(string \<times> hash) list"
  | SourceCouldNotFindRecords rtype "jsval list"
  | SourceDidDestroyRecords rtype "jsval list"
  | SourceDidCommitCreate "(storeKey \<times> jsval) list"
  | SourceDidNotCreate "storeKey list"
  | SourceDidCommitUpdate "storeKey list"
  | SourceDidNotUpdate "storeKey list"
  | SourceDidCommitDestroy "storeKey list"
  | SourceDidNotDestroy "storeKey list"
  | SourceDidError "storeKey list"
  | GetAllLoadedRecords rtype
  | SetAutoCommit bool
  | SetRebaseConflicts bool
  | SetObservers storeKey bool
  | SetNestedMayUnload "nat \<Rightarrow> storeKey \<Rightarrow> bool"
  | SetQueries "string list" "string list"

text \<open>
  The store after a call.  A call that throws leaves the store as it was at the
  exception.
\<close>

fun perform :: "call \<Rightarrow> store \<Rightarrow> store" where
  "perform (AddNested n) s = addNested n s"
| "perform (RemoveNested n) s = removeNested n s"
| "perform (GetStoreKey T ident) s = snd (getStoreKey T ident s)"
| "perform (SetIdForStoreKey sk ident) s = final (setIdForStoreKey sk ident s)"
| "perform (NewRecord T data) s = snd (newRecord T data s)"
| "perform (GetRecord T ref doNotFetch now) s = final (getRecord T ref doNotFetch now s)"
| "perform CommitChanges s = final (commitChanges s)"
| "perform DiscardChanges s = final (discardChanges s)"
| "perform (SetStatus sk st) s = setStatus sk st s"
| "perform (SetDirty sk) s = setDirty sk s"
| "perform (SetLoading sk) s = setLoading sk s"
| "perform (SetCommitting sk) s = setCommitting sk s"
| "perform (SetObsolete sk) s = setObsolete sk s"
| "perform (MaterialiseRecord sk) s = materialiseRecord sk s"
| "perform (UnloadRecord sk) s = final (unloadRecord sk s)"
| "perform (CreateRecord sk data) s = snd (createRecord sk data s)"
| "perform (DestroyRecord sk) s = final (destroyRecord sk s)"
| "perform (FetchHash sk) s = final (fetchHash sk s)"
| "perform (SetHash sk data changeIsDirty) s = snd (setHash sk data changeIsDirty s)"
| "perform (UpdateHash sk data changeIsDirty) s = snd (updateHash sk data changeIsDirty s)"
| "perform (RevertHash sk) s = revertHash sk s"
| "perform (SourceDidFetchAllRecords T records now) s =
     final (sourceDidFetchAllRecords T records now s)"
| "perform (SourceDidFetchRecords T records all now) s =
     final (sourceDidFetchRecords T records all now s)"
| "perform (SourceHasUpdatesForRecords T idList) s = final (sourceHasUpdatesForRecords T idList s)"
| "perform (SourceDidFetchUpdates T updates) s = final (sourceDidFetchUpdates T updates s)"
| "perform (SourceCouldNotFindRecords T idList) s = final (sourceCouldNotFindRecords T idList s)"
| "perform (SourceDidDestroyRecords T idList) s = final (sourceDidDestroyRecords T idList s)"
| "perform (SourceDidCommitCreate skToId) s = final (sourceDidCommitCreate skToId s)"
| "perform (SourceDidNotCreate storeKeys) s = final (sourceDidNotCreate storeKeys s)"
| "perform (SourceDidCommitUpdate storeKeys) s = final (sourceDidCommitUpdate storeKeys s)"
| "perform (SourceDidNotUpdate storeKeys) s = final (sourceDidNotUpdate storeKeys s)"
| "perform (SourceDidCommitDestroy storeKeys) s = final (sourceDidCommitDestroy storeKeys s)"
| "perform (SourceDidNotDestroy storeKeys) s = final (sourceDidNotDestroy storeKeys s)"
| "perform (SourceDidError storeKeys) s = final (sourceDidError storeKeys s)"
| "perform (GetAllLoadedRecords T) s = snd (getAllLoadedRecords T s)"
| "perform (SetAutoCommit b) s = s\<lparr>autoCommit := b\<rparr>"
| "perform (SetRebaseConflicts b) s = s\<lparr>rebaseConflicts := b\<rparr>"
| "perform (SetObservers sk b) s = s\<lparr>recordHasObservers := (recordHasObservers s)(sk := b)\<rparr>"
| "perform (SetNestedMayUnload answers) s = s\<lparr>nestedMayUnload := answers\<rparr>"
| "perform (SetQueries live needRefresh) s =
     s\<lparr>liveQueries := live, queryTypesNeedRefresh := needRefresh\<rparr>"

text \<open>The store that a sequence of calls leaves, from the empty store.\<close>

definition runCalls :: "call list \<Rightarrow> store" where
  "runCalls cs = fold perform cs init"

text \<open>
  \<open>setStatus\<close> writes the status it is given as it is; the other calls compute the
  status they write.  A call of \<open>setStatus\<close> is well formed when the status it passes
  has exactly one core-state bit.
\<close>

fun wellFormed :: "call \<Rightarrow> bool" where
  "wellFormed (SetStatus sk st) = oneCore st"
| "wellFormed _ = True"

text \<open>A mask of modifier flags: no core-state bit.\<close>

definition modifier :: "status \<Rightarrow> bool" where
  "modifier m \<longleftrightarrow> m AND 15 = 0"

text \<open>
  What the calls keep true of the tables: every status in the status table has exactly
  one core-state bit; every key with a type has been generated; and a key of the
  journal of changes that has no status has no type either, and has been generated.
\<close>

definition coreInv :: "store \<Rightarrow> bool" where
  "coreInv s \<longleftrightarrow>
     (\<forall>sk st. skToStatus s sk = Some st \<longrightarrow> oneCore st) \<and>
     (\<forall>sk T. skToType s sk = Some T \<longrightarrow> sk < nextKey s) \<and>
     (\<forall>sk \<in> fst ` set (skToChanged s).
        skToStatus s sk = None \<longrightarrow> skToType s sk = None \<and> sk < nextKey s)"

text \<open>Load a record, edit it, commit.\<close>

definition editAndCommit :: "call list" where
  "editAndCommit =
     [SourceDidFetchRecords T0 [[(''id'', JStr ''a''), (''x'', JNum 1)]] False 0,
      UpdateHash 1 (Some [(''x'', JNum 2)]) True,
      CommitChanges,
      SetStatus 1 (READY OR OBSOLETE)]"

text \<open>
  Stores in which a key is in two journals, each reached by calls from the empty store.
  In \<open>createdAndDestroyed\<close> a new record is destroyed while its create is being
  committed, the create fails, and the record (kept by an observer) is created again.
  In \<open>createdAndChanged\<close> a destroy is acknowledged for an edited record that an observer
  keeps, and the record is created again.  In \<open>changedAndDestroyed\<close> the destroy of a
  record fails permanently before it is committed, and the record is edited and
  refreshed.
\<close>

definition createdAndDestroyed :: store where
  "createdAndDestroyed =
     runCalls [NewRecord T0 [(''name'', JStr ''n'')], CommitChanges, DestroyRecord 1,
       SetObservers 1 True, SourceDidNotCreate [1], CreateRecord 1 (Some [(''name'', JStr ''m'')]),
       SetObsolete 1, SetObservers 1 False]"

definition createdAndChanged :: store where
  "createdAndChanged =
     runCalls [SourceDidFetchRecords T0 [[(''id'', JStr ''a''), (''x'', JNum 1)]] False 0,
       UpdateHash 1 (Some [(''x'', JNum 2)]) True, MaterialiseRecord 1, SetObservers 1 True,
       SourceDidCommitDestroy [1], CreateRecord 1 (Some [(''x'', JNum 3)])]"

definition changedAndDestroyed :: store where
  "changedAndDestroyed =
     runCalls [SourceDidFetchRecords T0 [[(''id'', JStr ''a''), (''x'', JNum 1)]] False 0,
       DestroyRecord 1, SourceDidError [1], UpdateHash 1 (Some [(''x'', JNum 2)]) True,
       FetchHash 1]"





section \<open>Who is told of a status\<close>

text \<open>
  The two kinds of object that \<open>setStatus\<close> tells of a new status: a nested store
  (\<open>parentDidChangeStatus\<close>) and the materialised record of the key
  (\<open>propertyDidChange( 'status', .. )\<close>).  \<open>toldStatus\<close> is the status that one call out of
  the store tells a listener for a key, \<open>lastTold\<close> the last status that a sequence of
  calls tells it, and \<open>listening\<close> says that the store holds the listener: the nested
  store is registered, the record object is in \<open>_skToRecord\<close>.
\<close>

datatype listener = NestedStore nat | RecordObject

fun toldStatus :: "listener \<Rightarrow> storeKey \<Rightarrow> event \<Rightarrow> status option" where
  "toldStatus (NestedStore n) k (ParentDidChangeStatus m j previous next') =
     (if m = n \<and> j = k then Some next' else None)"
| "toldStatus RecordObject k (RecordStatusDidChange j previous next') =
     (if j = k then Some next' else None)"
| "toldStatus L k e = None"

fun lastTold :: "listener \<Rightarrow> storeKey \<Rightarrow> event list \<Rightarrow> status option" where
  "lastTold L k [] = None"
| "lastTold L k (e # es) =
     (case lastTold L k es of Some st \<Rightarrow> Some st | None \<Rightarrow> toldStatus L k e)"

definition listening :: "listener \<Rightarrow> storeKey \<Rightarrow> store \<Rightarrow> bool" where
  "listening L k s =
     (case L of NestedStore n \<Rightarrow> n \<in> set (nestedStores s) | RecordObject \<Rightarrow> skToRecord s k)"

text \<open>The calls out of the store that a call on \<open>s\<close> made, \<open>s'\<close> being the store after it.\<close>

definition newEvents :: "store \<Rightarrow> store \<Rightarrow> event list" where
  "newEvents s s' = drop (length (events s)) (events s')"

text \<open>
  The calls that reach \<open>createRecord\<close>, and the calls that can reach \<open>unloadRecord\<close>
  (\<open>sourceDidFetchRecords\<close> when it is told that the records are all the records of the
  type).
\<close>

fun creates :: "call \<Rightarrow> bool" where
  "creates (CreateRecord sk data) = True"
| "creates (NewRecord T data) = True"
| "creates c = False"

fun unloads :: "call \<Rightarrow> bool" where
  "unloads (UnloadRecord sk) = True"
| "unloads (DestroyRecord sk) = True"
| "unloads DiscardChanges = True"
| "unloads (SourceDidFetchAllRecords T records now) = True"
| "unloads (SourceDidFetchRecords T records all now) = all"
| "unloads (SourceCouldNotFindRecords T idList) = True"
| "unloads (SourceDidDestroyRecords T idList) = True"
| "unloads (SourceDidNotCreate storeKeys) = True"
| "unloads (SourceDidCommitDestroy storeKeys) = True"
| "unloads (SourceDidError storeKeys) = True"
| "unloads c = False"

text \<open>
  What holds of a listener for key \<open>k\<close> at every point \<open>s\<close> of a call that started in
  \<open>s0\<close>: the store has dropped the record object (in a call that may unload), or it
  still holds the listener and the status entry of the key is the one the listener was
  last told, or the entry at the start if it was told nothing, or READY|NEW (in a call
  that may create), or absent (in a call that may unload).
\<close>

definition heard :: "listener \<Rightarrow> storeKey \<Rightarrow> bool \<Rightarrow> bool \<Rightarrow> store \<Rightarrow> store \<Rightarrow> bool" where
  "heard L k cr un s0 s \<longleftrightarrow>
     (\<exists>es. events s = events s0 @ es \<and>
        (un \<and> L = RecordObject \<and> \<not> skToRecord s k \<or>
         listening L k s \<and>
           (lastTold L k es = None \<and> skToStatus s k = skToStatus s0 k \<or>
            (\<exists>st. lastTold L k es = Some st \<and> skToStatus s k = Some st) \<or>
            cr \<and> skToStatus s k = Some (READY OR NEW) \<or>
            un \<and> skToStatus s k = None)))"

text \<open>A loaded record, materialised, in a store with a nested store.\<close>

definition watchedLoaded :: store where
  "watchedLoaded =
     runCalls [AddNested 7,
       SourceDidFetchRecords T0 [[(''id'', JStr ''a''), (''x'', JNum 1)]] False 0,
       MaterialiseRecord 1]"

section \<open>Basic facts\<close>

lemmas status_bits =
  EMPTY_def READY_def DESTROYED_def NON_EXISTENT_def LOADING_def COMMITTING_def NEW_def
  DIRTY_def OBSOLETE_def

lemmas wrappers =
  emit_def queueCommitChanges_def recordSetWasModified_def notifyRecordOfChanges_def

text \<open>The status of a key depends on the status table only.\<close>

lemma getStatus_frame [simp]:
  "getStatus (s\<lparr>autoCommit := x0\<rparr>) = getStatus s"
  "getStatus (s\<lparr>rebaseConflicts := x1\<rparr>) = getStatus s"
  "getStatus (s\<lparr>skToRecord := x2\<rparr>) = getStatus s"
  "getStatus (s\<lparr>recordHasObservers := x3\<rparr>) = getStatus s"
  "getStatus (s\<lparr>skToData := x4\<rparr>) = getStatus s"
  "getStatus (s\<lparr>skToType := x5\<rparr>) = getStatus s"
  "getStatus (s\<lparr>typeToSkToId := x6\<rparr>) = getStatus s"
  "getStatus (s\<lparr>typeToIdToSk := x7\<rparr>) = getStatus s"
  "getStatus (s\<lparr>skToChanged := x8\<rparr>) = getStatus s"
  "getStatus (s\<lparr>skToCommitted := x9\<rparr>) = getStatus s"
  "getStatus (s\<lparr>skToRollback := x10\<rparr>) = getStatus s"
  "getStatus (s\<lparr>skToLastAccess := x11\<rparr>) = getStatus s"
  "getStatus (s\<lparr>created := x12\<rparr>) = getStatus s"
  "getStatus (s\<lparr>destroyed := x13\<rparr>) = getStatus s"
  "getStatus (s\<lparr>liveQueries := x14\<rparr>) = getStatus s"
  "getStatus (s\<lparr>queryTypesNeedRefresh := x15\<rparr>) = getStatus s"
  "getStatus (s\<lparr>nestedStores := x16\<rparr>) = getStatus s"
  "getStatus (s\<lparr>nestedMayUnload := x17\<rparr>) = getStatus s"
  "getStatus (s\<lparr>nextKey := x18\<rparr>) = getStatus s"
  "getStatus (s\<lparr>events := x19\<rparr>) = getStatus s"
  by (simp_all add: getStatus_def fun_eq_iff)

lemma rawStatus_frame [simp]:
  "rawStatus (s\<lparr>autoCommit := x0\<rparr>) = rawStatus s"
  "rawStatus (s\<lparr>rebaseConflicts := x1\<rparr>) = rawStatus s"
  "rawStatus (s\<lparr>skToRecord := x2\<rparr>) = rawStatus s"
  "rawStatus (s\<lparr>recordHasObservers := x3\<rparr>) = rawStatus s"
  "rawStatus (s\<lparr>skToData := x4\<rparr>) = rawStatus s"
  "rawStatus (s\<lparr>skToType := x5\<rparr>) = rawStatus s"
  "rawStatus (s\<lparr>typeToSkToId := x6\<rparr>) = rawStatus s"
  "rawStatus (s\<lparr>typeToIdToSk := x7\<rparr>) = rawStatus s"
  "rawStatus (s\<lparr>skToChanged := x8\<rparr>) = rawStatus s"
  "rawStatus (s\<lparr>skToCommitted := x9\<rparr>) = rawStatus s"
  "rawStatus (s\<lparr>skToRollback := x10\<rparr>) = rawStatus s"
  "rawStatus (s\<lparr>skToLastAccess := x11\<rparr>) = rawStatus s"
  "rawStatus (s\<lparr>created := x12\<rparr>) = rawStatus s"
  "rawStatus (s\<lparr>destroyed := x13\<rparr>) = rawStatus s"
  "rawStatus (s\<lparr>liveQueries := x14\<rparr>) = rawStatus s"
  "rawStatus (s\<lparr>queryTypesNeedRefresh := x15\<rparr>) = rawStatus s"
  "rawStatus (s\<lparr>nestedStores := x16\<rparr>) = rawStatus s"
  "rawStatus (s\<lparr>nestedMayUnload := x17\<rparr>) = rawStatus s"
  "rawStatus (s\<lparr>nextKey := x18\<rparr>) = rawStatus s"
  "rawStatus (s\<lparr>events := x19\<rparr>) = rawStatus s"
  by (simp_all add: rawStatus_def fun_eq_iff)

lemma mayUnloadRecord_frame [simp]:
  "mayUnloadRecord (s\<lparr>autoCommit := x0\<rparr>) = mayUnloadRecord s"
  "mayUnloadRecord (s\<lparr>rebaseConflicts := x1\<rparr>) = mayUnloadRecord s"
  "mayUnloadRecord (s\<lparr>skToData := x2\<rparr>) = mayUnloadRecord s"
  "mayUnloadRecord (s\<lparr>skToType := x3\<rparr>) = mayUnloadRecord s"
  "mayUnloadRecord (s\<lparr>typeToSkToId := x4\<rparr>) = mayUnloadRecord s"
  "mayUnloadRecord (s\<lparr>typeToIdToSk := x5\<rparr>) = mayUnloadRecord s"
  "mayUnloadRecord (s\<lparr>skToChanged := x6\<rparr>) = mayUnloadRecord s"
  "mayUnloadRecord (s\<lparr>skToCommitted := x7\<rparr>) = mayUnloadRecord s"
  "mayUnloadRecord (s\<lparr>skToRollback := x8\<rparr>) = mayUnloadRecord s"
  "mayUnloadRecord (s\<lparr>skToLastAccess := x9\<rparr>) = mayUnloadRecord s"
  "mayUnloadRecord (s\<lparr>created := x10\<rparr>) = mayUnloadRecord s"
  "mayUnloadRecord (s\<lparr>destroyed := x11\<rparr>) = mayUnloadRecord s"
  "mayUnloadRecord (s\<lparr>liveQueries := x12\<rparr>) = mayUnloadRecord s"
  "mayUnloadRecord (s\<lparr>queryTypesNeedRefresh := x13\<rparr>) = mayUnloadRecord s"
  "mayUnloadRecord (s\<lparr>nextKey := x14\<rparr>) = mayUnloadRecord s"
  "mayUnloadRecord (s\<lparr>events := x15\<rparr>) = mayUnloadRecord s"
  by (simp_all add: mayUnloadRecord_def fun_eq_iff)

lemma getStatus_setStatus:
  "getStatus (setStatus sk st s) k =
     (if k = sk then (if st = 0 then EMPTY else st) else getStatus s k)"
  by (auto simp: setStatus_def getStatus_def Let_def wrappers split: option.splits)

text \<open>\<open>setStatus\<close> writes one entry of the status table, and the log.\<close>

lemma setStatus_other_fields:
  "skToData (setStatus j st a) = skToData a" "skToType (setStatus j st a) = skToType a"
  "skToRecord (setStatus j st a) = skToRecord a"
  "recordHasObservers (setStatus j st a) = recordHasObservers a"
  "nestedStores (setStatus j st a) = nestedStores a"
  "nestedMayUnload (setStatus j st a) = nestedMayUnload a"
  "skToCommitted (setStatus j st a) = skToCommitted a"
  "skToRollback (setStatus j st a) = skToRollback a"
  "skToChanged (setStatus j st a) = skToChanged a"
  "created (setStatus j st a) = created a" "destroyed (setStatus j st a) = destroyed a"
  "typeToSkToId (setStatus j st a) = typeToSkToId a"
  "typeToIdToSk (setStatus j st a) = typeToIdToSk a"
  "nextKey (setStatus j st a) = nextKey a"
  "autoCommit (setStatus j st a) = autoCommit a"
  "rebaseConflicts (setStatus j st a) = rebaseConflicts a"
  by (simp_all add: setStatus_def Let_def wrappers)

lemma setStatus_other_key: "j \<noteq> k \<Longrightarrow> skToStatus (setStatus j st a) k = skToStatus a k"
  by (simp add: setStatus_def Let_def wrappers)

subsection \<open>Hashes\<close>

lemma map_of_rev_distinct: "distinct (map fst xs) \<Longrightarrow> map_of (rev xs) = map_of xs"
proof (induction xs)
  case Nil
  then show ?case by simp
next
  case (Cons p xs)
  then have "fst p \<notin> dom (map_of xs)" by (simp add: dom_map_of_conv_image_fst)
  with Cons show ?case
    by (cases p) (auto simp: map_add_def fun_eq_iff domIff split: option.splits)
qed

lemma getAttr_cleanLoop:
  "getAttr (fst (cleanLoop ps (c, ks))) k =
     (case map_of (rev ps) k of Some v \<Rightarrow> v | None \<Rightarrow> getAttr c k)"
proof (induction ps arbitrary: c ks)
  case Nil
  then show ?case by simp
next
  case (Cons p ps)
  obtain key v where p: "p = (key, v)" by (cases p)
  show ?case
    using Cons.IH
    by (auto simp: p getAttr_def update_conv' map_add_def split: option.splits)
qed

lemma getAttr_cleanLoop_wf:
  assumes "wfHash ps"
  shows "getAttr (fst (cleanLoop ps (c, ks))) k =
           (if k \<in> fst ` set ps then getAttr ps k else getAttr c k)"
proof -
  have rev: "map_of (rev ps) = map_of ps"
    using assms by (simp add: wfHash_def map_of_rev_distinct)
  show ?thesis
  proof (cases "map_of ps k")
    case None
    then have "k \<notin> fst ` set ps" by (simp add: map_of_eq_None_iff)
    with None show ?thesis by (simp add: getAttr_cleanLoop rev)
  next
    case (Some v)
    then have "k \<in> fst ` set ps" by (metis map_of_eq_None_iff option.distinct(1))
    with Some show ?thesis unfolding getAttr_cleanLoop rev by (simp add: getAttr_def)
  qed
qed

lemma wfHash_nsExtend: "wfHash b \<Longrightarrow> wfHash (nsExtend b e)"
  unfolding nsExtend_def wfHash_def
  by (induction e arbitrary: b) (auto simp: distinct_update)

lemma extendOpt_Some: "extendOpt (Some b) (Some e) = Some (Some (nsExtend b e))"
  by (cases e) (simp_all add: extendOpt_def nsExtend_def)

subsection \<open>A write that is not dirty\<close>

lemma updateHash_clean:
  "snd (updateHash sk data False s) =
     recordSetWasModified (skToType s sk)
       (notifyRecordOfChanges sk
          (snd (cleanLoop (case data of Some d \<Rightarrow> d | None \<Rightarrow> [])
                  (case skToData s sk of Some c \<Rightarrow> c | None \<Rightarrow> [], [])))
          (s\<lparr>skToData := (skToData s)(sk \<mapsto>
               fst (cleanLoop (case data of Some d \<Rightarrow> d | None \<Rightarrow> [])
                  (case skToData s sk of Some c \<Rightarrow> c | None \<Rightarrow> [], [])))\<rparr>))"
  by (simp add: updateHash_def Let_def split_def)

section \<open>The edit-commit-update race\<close>

text \<open>
  C1 (counterexample).  The spec's scenario S2: the record with data \<open>{x:1}\<close> is edited
  to \<open>{x:2}\<close> and the commit is dispatched, so that its status is READY|COMMITTING and the
  rollback snapshot is \<open>{x:1}\<close>.  The server update \<open>{x:3}\<close> arrives before the
  acknowledgement.  After the update the COMMITTING bit is no longer set, and after
  \<open>sourceDidCommitUpdate\<close> the data is \<open>{x:3}\<close>, not the local edit \<open>{x:2}\<close>, and the status is
  READY|OBSOLETE, not READY.
\<close>

theorem race_counterexample:
  "skToStatus raceCommitting 1 = Some (READY OR COMMITTING) \<and>
   skToData raceCommitting 1 = Some [(''id'', JStr ''a''), (''x'', JNum 2)] \<and>
   skToRollback raceCommitting 1 = Some [(''id'', JStr ''a''), (''x'', JNum 1)] \<and>
   getStatus racePushed 1 AND COMMITTING = 0 \<and>
   skToData raceAcked 1 = Some [(''id'', JStr ''a''), (''x'', JNum 3)] \<and>
   skToData raceAcked 1 \<noteq> Some [(''id'', JStr ''a''), (''x'', JNum 2)] \<and>
   getStatus raceAcked 1 = READY OR OBSOLETE \<and>
   getStatus raceAcked 1 \<noteq> READY"
  by code_simp

text \<open>
  C1 (amended).  For a record that is READY and COMMITTING (not DIRTY) with a rollback
  snapshot \<open>r\<close> and data \<open>d\<close>, when \<open>sourceDidFetchUpdates\<close> delivers the update \<open>u\<close> for
  its id: the update is merged over the rollback snapshot and the merged hash is written
  over the data (an attribute of the merged hash takes the merged value, so a local edit
  of it is overwritten; any other attribute keeps its value), the rollback snapshot is
  discarded and the status becomes exactly READY, without COMMITTING.  The following
  \<open>sourceDidCommitUpdate\<close> for the store key leaves the data as it is and makes the status
  READY|OBSOLETE.
\<close>

theorem commit_update_race:
  assumes reg: "typeToIdToSk s (className T) = Some idToSk" "map_of idToSk i = Some sk"
    and st: "skToStatus s sk = Some st" "st AND READY \<noteq> 0" "st AND COMMITTING \<noteq> 0"
      "st AND DIRTY = 0"
    and tabs: "skToRollback s sk = Some r" "skToData s sk = Some d"
    and wf: "wfHash r" "wfHash u"
  shows "\<exists>s1 s2 d1.
           sourceDidFetchUpdates T [(i, u)] s = Returned () s1 \<and>
           sourceDidCommitUpdate [sk] s1 = Returned () s2 \<and>
           getStatus s1 sk = READY \<and> skToRollback s1 sk = None \<and>
           skToData s1 sk = Some d1 \<and> skToData s2 sk = Some d1 \<and>
           (\<forall>k. getAttr d1 k =
                  (if k \<in> fst ` set (nsExtend r u) then getAttr (nsExtend r u) k
                   else getAttr d k)) \<and>
           getStatus s2 sk = READY OR OBSOLETE"
proof -
  have raw: "rawStatus s sk = st" by (simp add: rawStatus_def st)
  define s0 where "s0 = s\<lparr>skToRollback := (skToRollback s)(sk := None)\<rparr>"
  define s1 where "s1 = setStatus sk READY (snd (updateHash sk (Some (nsExtend r u)) False s0))"
  have step: "fetchUpdate T (i, u) s = Returned () s1"
    using reg st tabs
    by (simp add: fetchUpdate_def raw extendOpt_Some Let_def s1_def s0_def)
  define s1' where "s1' = recordSetWasModified (Some T) s1"
  have fu: "sourceDidFetchUpdates T [(i, u)] s = Returned () s1'"
    by (simp add: sourceDidFetchUpdates_def forEach_def step andThen_def s1'_def)
  define d1 where "d1 = fst (cleanLoop (nsExtend r u) (d, []))"
  have g1: "getStatus s1' sk = READY"
    by (simp add: s1'_def s1_def wrappers setStatus_def updateHash_clean getStatus_def
        READY_def Let_def)
  have r1: "skToRollback s1' sk = None"
    by (simp add: s1'_def s1_def wrappers setStatus_def updateHash_clean Let_def s0_def)
  have dat1: "skToData s1' sk = Some d1"
    by (simp add: s1'_def s1_def wrappers setStatus_def updateHash_clean Let_def s0_def tabs
        d1_def)
  have attrs: "getAttr d1 k =
      (if k \<in> fst ` set (nsExtend r u) then getAttr (nsExtend r u) k else getAttr d k)" for k
    unfolding d1_def by (rule getAttr_cleanLoop_wf) (simp add: wfHash_nsExtend wf)
  define s2 where "s2 = setObsolete sk (s1'\<lparr>skToRollback := (skToRollback s1')(sk := None)\<rparr>)"
  have cu: "sourceDidCommitUpdate [sk] s1' = Returned () s2"
    by (simp add: sourceDidCommitUpdate_def forEach_def commitUpdateOne_def g1 s2_def Let_def
        status_bits)
  have g2: "getStatus s2 sk = READY OR OBSOLETE"
    using g1 by (simp add: s2_def setObsolete_def getStatus_setStatus status_bits)
  have dat2: "skToData s2 sk = Some d1"
    using dat1 by (simp add: s2_def setObsolete_def setStatus_def Let_def wrappers)
  show ?thesis
    using fu cu g1 r1 dat1 dat2 attrs g2 by blast
qed

theorem commit_update_race_witness:
  "typeToIdToSk raceCommitting (className T0) = Some [(''a'', 1)] \<and>
   skToStatus raceCommitting 1 = Some (READY OR COMMITTING) \<and>
   skToRollback raceCommitting 1 = Some [(''id'', JStr ''a''), (''x'', JNum 1)] \<and>
   skToData raceCommitting 1 = Some [(''id'', JStr ''a''), (''x'', JNum 2)] \<and>
   (\<exists>s1 s2 d1.
      sourceDidFetchUpdates T0 [(''a'', [(''x'', JNum 3)])] raceCommitting = Returned () s1 \<and>
      sourceDidCommitUpdate [1] s1 = Returned () s2 \<and>
      getStatus s1 1 = READY \<and> skToRollback s1 1 = None \<and>
      skToData s1 1 = Some d1 \<and> skToData s2 1 = Some d1 \<and>
      (\<forall>k. getAttr d1 k =
             (if k \<in> fst ` set (nsExtend [(''id'', JStr ''a''), (''x'', JNum 1)] [(''x'', JNum 3)])
              then getAttr (nsExtend [(''id'', JStr ''a''), (''x'', JNum 1)] [(''x'', JNum 3)]) k
              else getAttr [(''id'', JStr ''a''), (''x'', JNum 2)] k)) \<and>
      getStatus s2 1 = READY OR OBSOLETE)"
proof -
  have h1: "typeToIdToSk raceCommitting (className T0) = Some [(''a'', 1)]" by code_simp
  have h2: "map_of [(''a'', 1::nat)] ''a'' = Some 1" by simp
  have h3: "skToStatus raceCommitting 1 = Some (READY OR COMMITTING)" by code_simp
  have h4: "(READY OR COMMITTING) AND READY \<noteq> 0" "(READY OR COMMITTING) AND COMMITTING \<noteq> 0"
    "(READY OR COMMITTING) AND DIRTY = 0"
    by (simp_all add: status_bits)
  have h5: "skToRollback raceCommitting 1 = Some [(''id'', JStr ''a''), (''x'', JNum 1)]"
    by code_simp
  have h6: "skToData raceCommitting 1 = Some [(''id'', JStr ''a''), (''x'', JNum 2)]"
    by code_simp
  have h7: "wfHash [(''id'', JStr ''a''), (''x'', JNum 1)]" "wfHash [(''x'', JNum 3)]"
    by (simp_all add: wfHash_def)
  show ?thesis
    using commit_update_race [OF h1 h2 h3 h4 h5 h6 h7] h1 h3 h5 h6 by simp
qed

section \<open>Writing to a record that is not READY\<close>

text \<open>
  C9 (counterexample).  The record with store key 1 is EMPTY and has no data hash.  A
  dirty write is refused (\<open>updateHash\<close> returns false), but the data table has changed:
  \<open>getHash\<close> gave \<open>undefined\<close> before and gives the empty hash after.
\<close>

theorem write_to_unready_counterexample:
  "getStatus unreadyStore 1 AND READY = 0 \<and> getStatus unreadyStore 1 \<noteq> READY OR NEW \<and>
   getHash unreadyStore 1 = None \<and>
   fst (updateHash 1 (Some [(''x'', JNum 1)]) True unreadyStore) = False \<and>
   getHash (snd (updateHash 1 (Some [(''x'', JNum 1)]) True unreadyStore)) 1 = Some [] \<and>
   getHash (snd (updateHash 1 (Some [(''x'', JNum 1)]) True unreadyStore)) 1 \<noteq>
     getHash unreadyStore 1"
  by code_simp

text \<open>
  C9 (amended).  For every store key whose status lacks the READY bit, \<open>updateHash\<close> with
  \<open>changeIsDirty = true\<close> logs the write-to-unready warning, returns false and leaves the
  status table, the committed snapshots and the changed maps unchanged.  The data table
  is unchanged when the key has a data hash; when it has none, the empty hash is
  stored for it.  (A status without READY is never READY|NEW.)
\<close>

theorem write_to_unready:
  assumes "getStatus s sk AND READY = 0"
  shows "\<exists>s'. updateHash sk data True s = (False, s') \<and>
           events s' = events s @ [ConsoleLog CANNOT_WRITE_TO_UNREADY_RECORD_ERROR] \<and>
           skToStatus s' = skToStatus s \<and> skToCommitted s' = skToCommitted s \<and>
           skToChanged s' = skToChanged s \<and>
           skToData s' =
             (skToData s)(sk \<mapsto> (case skToData s sk of Some c \<Rightarrow> c | None \<Rightarrow> []))"
proof -
  have "getStatus s sk \<noteq> READY OR NEW"
    using assms by (auto simp: status_bits)
  then show ?thesis
    using assms by (simp add: updateHash_def Let_def emit_def)
qed

theorem write_to_unready_witness:
  "getStatus unreadyStore 1 AND READY = 0 \<and>
   (\<exists>s'. updateHash 1 (Some [(''x'', JNum 1)]) True unreadyStore = (False, s') \<and>
      events s' = events unreadyStore @ [ConsoleLog CANNOT_WRITE_TO_UNREADY_RECORD_ERROR] \<and>
      skToStatus s' = skToStatus unreadyStore \<and> skToCommitted s' = skToCommitted unreadyStore \<and>
      skToChanged s' = skToChanged unreadyStore \<and>
      skToData s' =
        (skToData unreadyStore)(1 \<mapsto> (case skToData unreadyStore 1 of Some c \<Rightarrow> c | None \<Rightarrow> [])))"
proof -
  have h: "getStatus unreadyStore 1 AND READY = 0" by code_simp
  show ?thesis
    using write_to_unready [OF h, of "Some [(''x'', JNum 1)]"] h by simp
qed

section \<open>A destroy acknowledged for a record that is not destroyed\<close>

text \<open>
  C7 (the code at the failing input).  The loaded record with store key 1 is READY and
  has data.  \<open>sourceDidCommitDestroy\<close> for it logs the mismatch and then goes on as for a
  destroyed record: the status is set to DESTROYED and the record is unloaded, so its
  data, status and type are gone.  \<open>sourceDidCommitCreate\<close> on a record that is not NEW
  only logs.
\<close>

theorem commit_destroy_mismatch_unloads:
  "getStatus raceLoaded 1 = READY \<and> getStatus raceLoaded 1 AND DESTROYED = 0 \<and>
   skToData raceLoaded 1 = Some [(''id'', JStr ''a''), (''x'', JNum 1)] \<and>
   skToType raceLoaded 1 = Some T0 \<and>
   returned (sourceDidCommitDestroy [1] raceLoaded) \<and>
   events (final (sourceDidCommitDestroy [1] raceLoaded)) =
     events raceLoaded @ [ConsoleLog SOURCE_COMMIT_DESTROY_MISMATCH_ERROR] \<and>
   skToStatus (final (sourceDidCommitDestroy [1] raceLoaded)) 1 = None \<and>
   skToData (final (sourceDidCommitDestroy [1] raceLoaded)) 1 = None \<and>
   skToType (final (sourceDidCommitDestroy [1] raceLoaded)) 1 = None \<and>
   typeToIdToSk (final (sourceDidCommitDestroy [1] raceLoaded)) ''T'' = Some [] \<and>
   events (final (sourceDidCommitCreate [(1, JStr ''b'')] raceLoaded)) =
     events raceLoaded @ [ConsoleLog SOURCE_COMMIT_CREATE_MISMATCH_ERROR] \<and>
   skToStatus (final (sourceDidCommitCreate [(1, JStr ''b'')] raceLoaded)) 1 = Some READY \<and>
   skToData (final (sourceDidCommitCreate [(1, JStr ''b'')] raceLoaded)) 1 =
     Some [(''id'', JStr ''a''), (''x'', JNum 1)]"
  by code_simp

section \<open>A commit of updates that fails transiently\<close>

text \<open>
  C3 (the code at the failing input).  The edited record is READY|COMMITTING with the
  rollback snapshot \<open>{x:1}\<close>, and the commit has emptied the set of changed keys.
  \<open>sourceDidNotUpdate\<close> restores the committed snapshot, discards the rollback, clears
  COMMITTING and sets DIRTY, but it rebuilds the changed map only for a record that is
  DIRTY already: the key is not put back among the changed keys, and the next
  \<open>commitChanges\<close> hands the source an empty change set.
\<close>

theorem not_update_does_not_requeue:
  "skToStatus raceCommitting 1 = Some (READY OR COMMITTING) \<and>
   skToRollback raceCommitting 1 = Some [(''id'', JStr ''a''), (''x'', JNum 1)] \<and>
   skToChanged raceCommitting = [] \<and>
   returned (sourceDidNotUpdate [1] raceCommitting) \<and>
   skToCommitted raceNotUpdated 1 = Some [(''id'', JStr ''a''), (''x'', JNum 1)] \<and>
   skToRollback raceNotUpdated 1 = None \<and>
   skToStatus raceNotUpdated 1 = Some (READY OR DIRTY) \<and>
   skToData raceNotUpdated 1 = Some [(''id'', JStr ''a''), (''x'', JNum 2)] \<and>
   skToChanged raceNotUpdated = [] \<and>
   returned (commitChanges raceNotUpdated) \<and>
   events raceRecommitted = events raceNotUpdated @ [SourceCommitChanges []] \<and>
   skToStatus raceRecommitted 1 = Some (READY OR DIRTY)"
  by code_simp

section \<open>Dirty writes and reverting\<close>

lemma dirtyLoop_data:
  "fst (dirtyLoop c ps (cur, ks, ch, sn)) = fst (cleanLoop ps (cur, ks))"
  by (induction ps arbitrary: cur ks ch sn) auto

lemma cleanLoop_keys:
  "fst ` set ps \<subseteq> fst ` set cur \<Longrightarrow> map fst (fst (cleanLoop ps (cur, ks))) = map fst cur"
proof (induction ps arbitrary: cur ks)
  case Nil
  then show ?case by simp
next
  case (Cons p ps)
  obtain key v where p: "p = (key, v)" by (cases p)
  have keys: "map fst (AList.update key v cur) = map fst cur"
    using Cons.prems by (auto simp: p update_keys)
  then have "fst ` set (AList.update key v cur) = fst ` set cur"
    by (metis list.set_map)
  with Cons.prems have "fst ` set ps \<subseteq> fst ` set (AList.update key v cur)"
    by (simp add: p)
  with Cons.IH [of "AList.update key v cur"] Cons.IH [of cur] Cons.prems keys
  show ?case by (simp add: p)
qed

lemma getAttr_update: "getAttr (AList.update k v h) k' = (if k' = k then v else getAttr h k')"
  by (simp add: getAttr_def update_conv')

lemma getAttr_Cons: "getAttr ((k, v) # h) k' = (if k' = k then v else getAttr h k')"
  by (simp add: getAttr_def)

lemma dirtyLoop_changed:
  assumes "distinct (map fst ps)"
  shows "map_of (fst (snd (snd (dirtyLoop c ps (cur, ks, ch, sn))))) k =
           (if k \<in> fst ` set ps \<and> getAttr ps k \<noteq> getAttr cur k
            then Some (getAttr ps k \<noteq> getAttr c k) else map_of ch k)"
  using assms
proof (induction ps arbitrary: cur ks ch sn)
  case Nil
  then show ?case by simp
next
  case (Cons p ps)
  obtain key v where p: "p = (key, v)" by (cases p)
  from Cons.prems have d: "distinct (map fst ps)" and nk: "key \<notin> fst ` set ps"
    by (simp_all add: p)
  show ?case
  proof (cases "k = key")
    case True
    with nk show ?thesis
      using Cons.IH [OF d] by (simp add: p getAttr_Cons update_conv')
  next
    case False
    then show ?thesis
      using Cons.IH [OF d] by (simp add: p getAttr_Cons getAttr_update update_conv')
  qed
qed

lemma dirtyLoop_seen:
  assumes "distinct (map fst ps)"
  shows "snd (snd (snd (dirtyLoop c ps (cur, ks, ch, sn)))) =
           (sn \<or> (\<exists>k \<in> fst ` set ps. getAttr ps k \<noteq> getAttr cur k \<and> getAttr ps k \<noteq> getAttr c k))"
  using assms
proof (induction ps arbitrary: cur ks ch sn)
  case Nil
  then show ?case by simp
next
  case (Cons p ps)
  obtain key v where p: "p = (key, v)" by (cases p)
  from Cons.prems have d: "distinct (map fst ps)" and nk: "key \<notin> fst ` set ps"
    by (simp_all add: p)
  have other: "getAttr (p # ps) k = getAttr ps k" "getAttr (AList.update key v cur) k = getAttr cur k"
    if "k \<in> fst ` set ps" for k
    using that nk by (auto simp: p getAttr_Cons getAttr_update)
  have here: "getAttr (p # ps) key = v" by (simp add: p getAttr_Cons)
  show ?case
    using Cons.IH [OF d] other here
    by (auto simp: p)
qed

lemma dirtyLoop_distinct:
  "distinct (map fst ch) \<Longrightarrow> distinct (map fst (fst (snd (snd (dirtyLoop c ps (cur, ks, ch, sn))))))"
  by (induction ps arbitrary: cur ks ch sn) (auto simp: distinct_update)

lemma alist_eqI:
  assumes "map fst xs = map fst ys" "distinct (map fst xs)" "\<And>k. getAttr xs k = getAttr ys k"
  shows "xs = ys"
  using assms
proof (induction xs arbitrary: ys)
  case Nil
  then show ?case by simp
next
  case (Cons x xs)
  then obtain y ys' where ys: "ys = y # ys'" by (cases ys) auto
  obtain k v where x: "x = (k, v)" by (cases x)
  obtain k' w where y: "y = (k', w)" by (cases y)
  from Cons.prems(1) have kk: "k' = k" and rest: "map fst xs = map fst ys'" by (simp_all add: ys x y)
  from Cons.prems(3) [of k] have vw: "v = w" by (simp add: ys x y kk getAttr_Cons)
  have nk: "k \<notin> fst ` set xs" using Cons.prems(2) by (simp add: x)
  have "getAttr xs j = getAttr ys' j" for j
  proof (cases "j = k")
    case True
    with nk rest have "map_of xs j = None" "map_of ys' j = None"
      by (simp_all add: map_of_eq_None_iff) (metis list.set_map)+
    then show ?thesis by (simp add: getAttr_def)
  next
    case False
    with Cons.prems(3) [of j] show ?thesis by (simp add: ys x y kk getAttr_Cons)
  qed
  with Cons.IH [OF rest] Cons.prems(2) have "xs = ys'" by simp
  then show ?case by (simp add: ys x y kk vw)
qed

lemma ex_true_iff:
  assumes "distinct (map fst ch)"
  shows "(\<exists>b \<in> set (map snd ch). b) \<longleftrightarrow> (\<exists>k. map_of ch k = Some True)"
proof
  assume "\<exists>b \<in> set (map snd ch). b"
  then obtain k where "(k, True) \<in> set ch" by force
  with assms show "\<exists>k. map_of ch k = Some True" by (auto intro: map_of_is_SomeI)
next
  assume "\<exists>k. map_of ch k = Some True"
  then obtain k where "map_of ch k = Some True" ..
  then have "(k, True) \<in> set ch" by (rule map_of_SomeD)
  then show "\<exists>b \<in> set (map snd ch). b" by force
qed

lemma and_not_self: "(st::32 word) AND m = 0 \<Longrightarrow> st AND NOT m = st"
  by (auto simp: bit_eq_iff bit_simps)

lemma or_and_not: "(st::32 word) AND m = 0 \<Longrightarrow> (st OR m) AND NOT m = st"
  by (simp add: word_ao_dist and_not_self)

lemma cleanLoop_same:
  "(\<And>k. k \<in> fst ` set ps \<Longrightarrow> getAttr ps k = getAttr cur k) \<Longrightarrow> distinct (map fst ps) \<Longrightarrow>
   cleanLoop ps (cur, ks) = (cur, ks)"
proof (induction ps)
  case Nil
  then show ?case by simp
next
  case (Cons p ps)
  obtain key v where p: "p = (key, v)" by (cases p)
  from Cons.prems(2) have nk: "key \<notin> fst ` set ps" and d: "distinct (map fst ps)"
    by (simp_all add: p)
  have "v = getAttr cur key" using Cons.prems(1) [of key] by (simp add: p getAttr_Cons)
  moreover have "getAttr ps k = getAttr cur k" if "k \<in> fst ` set ps" for k
  proof -
    from that nk have "k \<noteq> key" by auto
    with Cons.prems(1) [of k] that show ?thesis by (simp add: p getAttr_Cons)
  qed
  ultimately show ?case using Cons.IH d by (simp add: p)
qed

text \<open>The dirty branch of updateHash, with the result of its loop named.\<close>

lemma updateHash_dirty:
  assumes "getStatus s sk \<noteq> READY OR NEW" "getStatus s sk AND READY \<noteq> 0"
    and "skToData s sk = Some cur"
    and "committed = (case skToCommitted s sk of Some c \<Rightarrow> c | None \<Rightarrow> cur)"
    and "ch0 = (case map_of (skToChanged s) sk of Some c \<Rightarrow> c | None \<Rightarrow> [])"
    and "dirtyLoop committed ps (cur, [], ch0, False) = (cur', ks, ch, sn)"
  shows "snd (updateHash sk (Some ps) True s) =
     (let s3 = s\<lparr>skToCommitted := (skToCommitted s)(sk \<mapsto> committed),
                  skToData := (skToData s)(sk \<mapsto> cur'),
                  skToChanged := AList.update sk ch (skToChanged s)\<rparr>;
          s4 = (if sn \<or> (\<exists>b \<in> set (map snd ch). b) then
                  let s' = setDirty sk s3 in
                  if autoCommit s' then queueCommitChanges s' else s'
                else
                  let s' = setStatus sk (getStatus s sk AND NOT DIRTY) s3 in
                  s'\<lparr>skToCommitted := (skToCommitted s')(sk := None),
                     skToChanged := AList.delete sk (skToChanged s')\<rparr>)
      in recordSetWasModified (skToType s4 sk) (notifyRecordOfChanges sk ks s4))"
  using assms by (simp add: updateHash_def Let_def fun_upd_idem)

text \<open>
  C6 (counterexample).  The loaded record is READY with data \<open>{id:a, x:1}\<close> and no dirty
  state.  The patch \<open>{y:2}\<close> adds an attribute; \<open>revertHash\<close> writes the committed snapshot
  back attribute by attribute and so leaves \<open>y\<close> in place: the data is not restored, DIRTY
  stays set and the committed snapshot stays.  And for the record that is READY|NEW the
  write is never dirty, so \<open>revertHash\<close> finds no snapshot and the patched value stays.
\<close>

theorem update_revert_counterexample:
  "getStatus raceLoaded 1 = READY \<and> skToCommitted raceLoaded 1 = None \<and>
   skToChanged raceLoaded = [] \<and>
   skToData raceLoaded 1 = Some [(''id'', JStr ''a''), (''x'', JNum 1)] \<and>
   skToData (revertHash 1 (snd (updateHash 1 (Some [(''y'', JNum 2)]) True raceLoaded))) 1 =
     Some [(''id'', JStr ''a''), (''x'', JNum 1), (''y'', JNum 2)] \<and>
   getStatus (revertHash 1 (snd (updateHash 1 (Some [(''y'', JNum 2)]) True raceLoaded))) 1 =
     READY OR DIRTY \<and>
   skToCommitted (revertHash 1 (snd (updateHash 1 (Some [(''y'', JNum 2)]) True raceLoaded))) 1 =
     Some [(''id'', JStr ''a''), (''x'', JNum 1)] \<and>
   getStatus createdStore 1 = READY OR NEW \<and> skToCommitted createdStore 1 = None \<and>
   skToChanged createdStore = [] \<and>
   skToData createdStore 1 = Some [(''name'', JStr ''n'')] \<and>
   skToData (revertHash 1 (snd (updateHash 1 (Some [(''name'', JStr ''m'')]) True createdStore))) 1 =
     Some [(''name'', JStr ''m'')]"
  by code_simp

text \<open>
  C6 (amended).  For every record \<open>k\<close> that is READY, not READY|NEW and not DIRTY, with no
  committed snapshot and no changed map, and every patch \<open>P\<close> that only names attributes
  the record's data already has: \<open>updateHash(k, P, true)\<close> followed by \<open>revertHash(k)\<close>
  restores the data to its original value, leaves the status as it was (DIRTY clear) and
  leaves no committed snapshot and no changed map.  (Data and patch are well-formed
  hashes: every key once.)
\<close>

theorem update_revert_round_trip:
  assumes st: "getStatus s k AND READY \<noteq> 0" "getStatus s k \<noteq> READY OR NEW"
      "getStatus s k AND DIRTY = 0"
    and clean: "skToCommitted s k = None" "map_of (skToChanged s) k = None"
    and dat: "skToData s k = Some d"
    and wf: "wfHash d" "wfHash P" "fst ` set P \<subseteq> fst ` set d"
  shows "skToData (revertHash k (snd (updateHash k (Some P) True s))) k = Some d \<and>
         getStatus (revertHash k (snd (updateHash k (Some P) True s))) k = getStatus s k \<and>
         getStatus (revertHash k (snd (updateHash k (Some P) True s))) k AND DIRTY = 0 \<and>
         skToCommitted (revertHash k (snd (updateHash k (Some P) True s))) k = None \<and>
         map_of (skToChanged (revertHash k (snd (updateHash k (Some P) True s)))) k = None"
proof -
  define status where "status = getStatus s k"
  have dP: "distinct (map fst P)" and dd: "distinct (map fst d)"
    using wf by (simp_all add: wfHash_def)
  obtain cur1 ks1 ch1 sn1 where loop1: "dirtyLoop d P (d, [], [], False) = (cur1, ks1, ch1, sn1)"
    by (metis prod_cases4)
  have cur1: "cur1 = fst (cleanLoop P (d, []))"
    using dirtyLoop_data [of d P d "[]" "[]" False] loop1 by simp
  have ch1: "map_of ch1 a =
      (if a \<in> fst ` set P \<and> getAttr P a \<noteq> getAttr d a then Some True else None)" for a
    using dirtyLoop_changed [OF dP, of d d "[]" "[]" False a] loop1 by auto
  have sn1: "sn1 = (\<exists>a \<in> fst ` set P. getAttr P a \<noteq> getAttr d a)"
    using dirtyLoop_seen [OF dP, of d d "[]" "[]" False] loop1 by auto
  have dch1: "distinct (map fst ch1)"
    using dirtyLoop_distinct [of "[]" d P d "[]" False] loop1 by simp
  have seen1: "(sn1 \<or> (\<exists>b \<in> set (map snd ch1). b)) = sn1"
    unfolding ex_true_iff [OF dch1] using ch1 sn1 by auto
  have keys1: "map fst cur1 = map fst d"
    unfolding cur1 using wf(3) by (rule cleanLoop_keys)
  have attr1: "getAttr cur1 a = (if a \<in> fst ` set P then getAttr P a else getAttr d a)" for a
    unfolding cur1 using wf(2) by (rule getAttr_cleanLoop_wf)
  have c0: "d = (case skToCommitted s k of Some c \<Rightarrow> c | None \<Rightarrow> d)"
    and h0: "[] = (case map_of (skToChanged s) k of Some c \<Rightarrow> c | None \<Rightarrow> [])"
    by (simp_all add: clean)
  note first = updateHash_dirty [OF st(2) st(1) dat c0 h0 loop1, unfolded seen1]
  show ?thesis
  proof (cases sn1)
    case False
    then have same: "getAttr P a = getAttr d a" if "a \<in> fst ` set P" for a
      using sn1 that by auto
    have "cur1 = d"
      unfolding cur1 using cleanLoop_same [of P d "[]"] same dP by simp
    moreover have "getStatus s k AND NOT DIRTY = getStatus s k"
      using st(3) by (rule and_not_self)
    ultimately show ?thesis
      using False st(3) clean
      by (simp add: first revertHash_def Let_def wrappers setStatus_def delete_conv')
  next
    case True
    define s1 where "s1 = snd (updateHash k (Some P) True s)"
    have "status OR DIRTY \<noteq> 0"
      by (simp add: or_eq_0_iff DIRTY_def)
    then have s1_status: "getStatus s1 k = status OR DIRTY"
      using True
      by (simp add: s1_def first Let_def wrappers setDirty_def getStatus_setStatus status_def)
    have s1_com: "skToCommitted s1 k = Some d"
      using True by (simp add: s1_def first Let_def wrappers setDirty_def setStatus_def)
    have s1_dat: "skToData s1 k = Some cur1"
      using True by (simp add: s1_def first Let_def wrappers setDirty_def setStatus_def)
    have s1_ch: "map_of (skToChanged s1) k = Some ch1"
      using True by (simp add: s1_def first Let_def wrappers setDirty_def setStatus_def update_conv')
    have "(status OR DIRTY) AND DIRTY = DIRTY"
      by (simp add: word_ao_absorbs)
    moreover have "(READY OR NEW) AND DIRTY \<noteq> DIRTY"
      by (simp add: status_bits)
    ultimately have "status OR DIRTY \<noteq> READY OR NEW"
      by metis
    moreover have "(status OR DIRTY) AND READY \<noteq> 0"
      using st(1) by (simp add: word_ao_dist status_bits status_def)
    ultimately have st2: "getStatus s1 k \<noteq> READY OR NEW" "getStatus s1 k AND READY \<noteq> 0"
      unfolding s1_status by simp_all
    obtain cur2 ks2 ch2 sn2 where loop2: "dirtyLoop d d (cur1, [], ch1, False) = (cur2, ks2, ch2, sn2)"
      by (metis prod_cases4)
    have cur2: "cur2 = fst (cleanLoop d (cur1, []))"
      using dirtyLoop_data [of d d cur1 "[]" ch1 False] loop2 by simp
    have ch2: "map_of ch2 a =
        (if a \<in> fst ` set d \<and> getAttr d a \<noteq> getAttr cur1 a then Some False else map_of ch1 a)" for a
      using dirtyLoop_changed [OF dd, of d cur1 "[]" ch1 False a] loop2 by auto
    have sn2: "\<not> sn2"
      using dirtyLoop_seen [OF dd, of d cur1 "[]" ch1 False] loop2 by auto
    have dch2: "distinct (map fst ch2)"
      using dirtyLoop_distinct [OF dch1, of d d cur1 "[]" False] loop2 by simp
    have "map_of ch2 a \<noteq> Some True" for a
      using ch2 [of a] ch1 [of a] attr1 [of a] wf(3) by auto
    then have seen2: "\<not> (sn2 \<or> (\<exists>b \<in> set (map snd ch2). b))"
      unfolding ex_true_iff [OF dch2] using sn2 by simp
    have keys2: "map fst cur2 = map fst d"
      unfolding cur2 using cleanLoop_keys [of d cur1 "[]"] keys1 by (metis list.set_map order_refl)
    have attr2: "getAttr cur2 a = getAttr d a" for a
      unfolding cur2 using getAttr_cleanLoop_wf [OF wf(1), of cur1 "[]" a] attr1 [of a] wf(3)
      by auto
    have cur2_d: "cur2 = d"
      using keys2 attr2 dd by (intro alist_eqI) (simp_all)
    have c1: "d = (case skToCommitted s1 k of Some c \<Rightarrow> c | None \<Rightarrow> cur1)"
      and h1: "ch1 = (case map_of (skToChanged s1) k of Some c \<Rightarrow> c | None \<Rightarrow> [])"
      by (simp_all add: s1_com s1_ch)
    have seen2': "(sn2 \<or> (\<exists>b \<in> set (map snd ch2). b)) = False"
      using seen2 by simp
    note second0 = updateHash_dirty [OF st2 s1_dat c1 h1 loop2, unfolded seen2' cur2_d]
    have second: "revertHash k s1 = snd (updateHash k (Some d) True s1)"
      by (simp add: revertHash_def s1_com)
    have clr: "(status OR DIRTY) AND NOT DIRTY = status"
      using st(3) unfolding status_def by (rule or_and_not)
    have nz: "status \<noteq> 0" using st(1) unfolding status_def by auto
    show ?thesis
      unfolding s1_def [symmetric] second second0
      using nz st(3) [unfolded status_def [symmetric]]
      by (simp add: Let_def wrappers s1_status clr setStatus_def delete_conv'
          status_def [symmetric])
        (simp add: getStatus_def)
  qed
qed


theorem update_revert_round_trip_witness:
  "getStatus raceLoaded 1 AND READY \<noteq> 0 \<and> getStatus raceLoaded 1 \<noteq> READY OR NEW \<and>
   getStatus raceLoaded 1 AND DIRTY = 0 \<and> skToCommitted raceLoaded 1 = None \<and>
   map_of (skToChanged raceLoaded) 1 = None \<and>
   skToData raceLoaded 1 = Some [(''id'', JStr ''a''), (''x'', JNum 1)] \<and>
   skToData (snd (updateHash 1 (Some [(''x'', JNum 2)]) True raceLoaded)) 1 =
     Some [(''id'', JStr ''a''), (''x'', JNum 2)] \<and>
   skToData (revertHash 1 (snd (updateHash 1 (Some [(''x'', JNum 2)]) True raceLoaded))) 1 =
     Some [(''id'', JStr ''a''), (''x'', JNum 1)] \<and>
   getStatus (revertHash 1 (snd (updateHash 1 (Some [(''x'', JNum 2)]) True raceLoaded))) 1 =
     getStatus raceLoaded 1 \<and>
   skToCommitted (revertHash 1 (snd (updateHash 1 (Some [(''x'', JNum 2)]) True raceLoaded))) 1 = None \<and>
   map_of (skToChanged (revertHash 1 (snd (updateHash 1 (Some [(''x'', JNum 2)]) True raceLoaded)))) 1 =
     None"
proof -
  have h1: "getStatus raceLoaded 1 AND READY \<noteq> 0" "getStatus raceLoaded 1 \<noteq> READY OR NEW"
    "getStatus raceLoaded 1 AND DIRTY = 0"
    by code_simp+
  have h2: "skToCommitted raceLoaded 1 = None" "map_of (skToChanged raceLoaded) 1 = None"
    by code_simp+
  have h3: "skToData raceLoaded 1 = Some [(''id'', JStr ''a''), (''x'', JNum 1)]"
    by code_simp
  have h4: "wfHash [(''id'', JStr ''a''), (''x'', JNum 1)]" "wfHash [(''x'', JNum 2)]"
    "fst ` set [(''x'', JNum 2)] \<subseteq> fst ` set [(''id'', JStr ''a''), (''x'', JNum 1)]"
    by (simp_all add: wfHash_def)
  have mid: "skToData (snd (updateHash 1 (Some [(''x'', JNum 2)]) True raceLoaded)) 1 =
     Some [(''id'', JStr ''a''), (''x'', JNum 2)]"
    by code_simp
  show ?thesis
    using update_revert_round_trip [OF h1 h2 h3 h4] h1 h2 h3 mid by simp
qed

section \<open>A server update for a dirty record\<close>

lemma update_append_new: "k \<notin> fst ` set xs \<Longrightarrow> AList.update k v xs = xs @ [(k, v)]"
  by (induction xs) auto

lemma getAttr_undefined: "k \<notin> fst ` set h \<Longrightarrow> getAttr h k = Undefined"
  by (simp add: getAttr_def map_of_eq_None_iff [THEN iffD2])

lemma differsFrom_plain:
  "key \<notin> set objectPrototypeNames \<Longrightarrow> differsFrom val u key = (val \<noteq> getAttr u key)"
  by (simp add: differsFrom_def getAttr_undefined)

lemma hasProperty_plain:
  "key \<notin> set objectPrototypeNames \<Longrightarrow> hasProperty key oc = (key \<in> fst ` set oc)"
  by (simp add: hasProperty_def)

lemma rebaseLoop_eq:
  assumes "distinct (map fst ps)" "fst ` set nd \<inter> fst ` set ps = {}"
    "fst ` set nc \<inter> fst ` set ps = {}" "fst ` set ps \<inter> set objectPrototypeNames = {}"
  shows "rebaseLoop oc u ps (nd, nc, cl) =
           (nd @ map (rebasedAttr oc u) ps,
            nc @ map (\<lambda>p. (fst p, True)) (filter (editSurvives oc u) ps),
            cl \<and> \<not> (\<exists>p \<in> set ps. editSurvives oc u p))"
  using assms
proof (induction ps arbitrary: nd nc cl)
  case Nil
  then show ?case by simp
next
  case (Cons p ps)
  obtain key v where p: "p = (key, v)" by (cases p)
  from Cons.prems have d: "distinct (map fst ps)" and nk: "key \<notin> fst ` set ps"
    and knd: "key \<notin> fst ` set nd" and knc: "key \<notin> fst ` set nc"
    and dnd: "fst ` set nd \<inter> fst ` set ps = {}" and dnc: "fst ` set nc \<inter> fst ` set ps = {}"
    and plain: "key \<notin> set objectPrototypeNames"
    and rest: "fst ` set ps \<inter> set objectPrototypeNames = {}"
    by (auto simp: p)
  have nd': "fst ` set (nd @ [(key, x)]) \<inter> fst ` set ps = {}" for x
    using dnd nk by auto
  have nc': "fst ` set (nc @ [(key, True)]) \<inter> fst ` set ps = {}"
    using dnc nk by auto
  show ?case
    using Cons.IH [OF d nd' dnc rest] Cons.IH [OF d nd' nc' rest]
    by (simp add: p update_append_new knd knc rebasedAttr_def editSurvives_def
          differsFrom_plain [OF plain] hasProperty_plain [OF plain])
qed


lemma map_fst_rebasedAttr: "map fst (map (rebasedAttr oc u) ps) = map fst ps"
  by (induction ps) (simp_all add: rebasedAttr_def editSurvives_def)

lemma cleanLoop_overwrite:
  assumes "wfHash d" "map fst nd = map fst d"
  shows "fst (cleanLoop nd (d, ks)) = nd"
proof (rule alist_eqI)
  have sub: "fst ` set nd \<subseteq> fst ` set d"
    using assms(2) by (metis list.set_map order_refl)
  show "map fst (fst (cleanLoop nd (d, ks))) = map fst nd"
    using cleanLoop_keys [OF sub] assms(2) by simp
  then show "distinct (map fst (fst (cleanLoop nd (d, ks))))"
    using assms by (simp add: wfHash_def)
  have wfnd: "wfHash nd" using assms by (simp add: wfHash_def)
  show "getAttr (fst (cleanLoop nd (d, ks))) k = getAttr nd k" for k
  proof (cases "k \<in> fst ` set nd")
    case True
    then show ?thesis by (simp add: getAttr_cleanLoop_wf [OF wfnd])
  next
    case False
    moreover from False assms(2) have "k \<notin> fst ` set d" by (metis list.set_map)
    ultimately show ?thesis by (simp add: getAttr_cleanLoop_wf [OF wfnd] getAttr_undefined)
  qed
qed

lemma cleanLoop_prefix: "map fst d = take (length d) (map fst (fst (cleanLoop ps (d, ks))))"
proof (induction ps arbitrary: d ks)
  case Nil
  then show ?case by simp
next
  case (Cons p ps)
  obtain key v where p: "p = (key, v)" by (cases p)
  have upd: "map fst d = take (length d) (map fst (AList.update key v d))"
    by (induction d) auto
  have len: "length d \<le> length (AList.update key v d)"
    by (induction d) auto
  show ?case
  proof (cases "v \<noteq> getAttr d key")
    case True
    from Cons.IH [of "AList.update key v d" "ks @ [key]"]
    have "take (length d) (map fst (AList.update key v d)) =
        take (length d) (take (length (AList.update key v d))
          (map fst (fst (cleanLoop ps (AList.update key v d, ks @ [key])))))"
      by simp
    with upd len True show ?thesis by (simp add: p min_def)
  next
    case False
    with Cons.IH [of d ks] show ?thesis by (simp add: p)
  qed
qed

text \<open>
  C4 (counterexample).  In \<open>protoEdited\<close> the record \<open>{id:a, constructor:1, b:1}\<close> has the
  edit \<open>b := 2\<close>, so its changed map is \<open>{b:true}\<close>.  The server update
  \<open>{constructor:5}\<close> gives \<open>update' = {id:a, constructor:5, b:1}\<close>.  The attribute
  \<open>constructor\<close> is not locally changed, so it should take the value 5 of \<open>update'\<close>; but
  \<open>'constructor' in oldChanged\<close> is true of every object, so the code keeps the local
  value 1 and marks \<open>constructor\<close> changed.  In \<open>cleanEdited\<close> the record
  \<open>{id:a, x:2, y:5}\<close> has the committed snapshot \<open>{id:a, x:1}\<close> and the changed map
  \<open>{x:true}\<close>; the server update \<open>{x:2}\<close> leaves no edit alive.  The attribute \<open>y\<close> is not
  locally changed and \<open>update'\<close> has no \<open>y\<close>, so it should become undefined; but when no
  edit survives the code merges \<open>update'\<close> into the data, and \<open>y\<close> stays 5.
\<close>

theorem rebase_counterexample:
  "skToData protoEdited 1 = Some [(''id'', JStr ''a''), (''constructor'', JNum 1), (''b'', JNum 2)] \<and>
   skToCommitted protoEdited 1 =
     Some [(''id'', JStr ''a''), (''constructor'', JNum 1), (''b'', JNum 1)] \<and>
   map_of (skToChanged protoEdited) 1 = Some [(''b'', True)] \<and>
   getStatus protoEdited 1 = READY OR DIRTY \<and> rebaseConflicts protoEdited \<and>
   nsExtend [(''id'', JStr ''a''), (''constructor'', JNum 1), (''b'', JNum 1)]
     [(''constructor'', JNum 5)] =
     [(''id'', JStr ''a''), (''constructor'', JNum 5), (''b'', JNum 1)] \<and>
   rebasedAttr [(''b'', True)] [(''id'', JStr ''a''), (''constructor'', JNum 5), (''b'', JNum 1)]
     (''constructor'', JNum 1) = (''constructor'', JNum 5) \<and>
   returned (sourceDidFetchUpdates T0 [(''a'', [(''constructor'', JNum 5)])] protoEdited) \<and>
   skToData (final (sourceDidFetchUpdates T0 [(''a'', [(''constructor'', JNum 5)])] protoEdited)) 1 =
     Some [(''id'', JStr ''a''), (''constructor'', JNum 1), (''b'', JNum 2)] \<and>
   map_of (skToChanged
       (final (sourceDidFetchUpdates T0 [(''a'', [(''constructor'', JNum 5)])] protoEdited))) 1 =
     Some [(''constructor'', True), (''b'', True)] \<and>
   skToData cleanEdited 1 = Some [(''id'', JStr ''a''), (''x'', JNum 2), (''y'', JNum 5)] \<and>
   skToCommitted cleanEdited 1 = Some [(''id'', JStr ''a''), (''x'', JNum 1)] \<and>
   map_of (skToChanged cleanEdited) 1 = Some [(''x'', True)] \<and>
   getStatus cleanEdited 1 = READY OR DIRTY \<and> rebaseConflicts cleanEdited \<and>
   nsExtend [(''id'', JStr ''a''), (''x'', JNum 1)] [(''x'', JNum 2)] =
     [(''id'', JStr ''a''), (''x'', JNum 2)] \<and>
   rebasedAttr [(''x'', True)] [(''id'', JStr ''a''), (''x'', JNum 2)] (''y'', JNum 5) =
     (''y'', Undefined) \<and>
   returned (sourceDidFetchUpdates T0 [(''a'', [(''x'', JNum 2)])] cleanEdited) \<and>
   skToData (final (sourceDidFetchUpdates T0 [(''a'', [(''x'', JNum 2)])] cleanEdited)) 1 =
     Some [(''id'', JStr ''a''), (''x'', JNum 2), (''y'', JNum 5)] \<and>
   getStatus (final (sourceDidFetchUpdates T0 [(''a'', [(''x'', JNum 2)])] cleanEdited)) 1 = READY"
  by code_simp


text \<open>
  C4 (amended).  For every record that is READY and DIRTY and not COMMITTING, with committed
  snapshot \<open>c\<close>, changed map \<open>ch\<close> and data \<open>d\<close>, none of whose attributes is named as a
  member of \<open>Object.prototype\<close>, when \<open>sourceDidFetchUpdates\<close> delivers the update \<open>u\<close>
  for its id and \<open>rebaseConflicts\<close> is on, with \<open>update' = nsExtend c u\<close>.  If an edit
  survives (some attribute of the data is locally changed and differs from \<open>update'\<close>),
  then afterwards the committed snapshot is \<open>update'\<close>; every attribute of the data that
  is locally changed and differs from \<open>update'\<close> keeps its local value and every other
  attribute has the value of \<open>update'\<close> (undefined if \<open>update'\<close> does not have it); the
  changed map marks exactly the surviving attributes; and the status is READY|DIRTY.
  If no edit survives, the committed snapshot and the changed map are discarded, the
  status is READY, and the data keeps its attributes in order, every attribute that
  \<open>update'\<close> has with the value of \<open>update'\<close> and every other attribute with its local
  value.
\<close>

theorem rebase_dirty_record:
  assumes reg: "typeToIdToSk s (className T) = Some idToSk" "map_of idToSk i = Some sk"
    and st: "skToStatus s sk = Some st" "st AND READY \<noteq> 0" "st AND DIRTY \<noteq> 0"
      "st AND COMMITTING = 0"
    and tabs: "skToCommitted s sk = Some c" "map_of (skToChanged s) sk = Some ch"
      "skToData s sk = Some d"
    and rebase: "rebaseConflicts s"
    and wf: "wfHash d" "wfHash c"
    and names: "fst ` set d \<inter> set objectPrototypeNames = {}"
  shows "\<exists>s'. sourceDidFetchUpdates T [(i, u)] s = Returned () s' \<and>
           (if \<exists>p \<in> set d. editSurvives ch (nsExtend c u) p then
              skToCommitted s' sk = Some (nsExtend c u) \<and>
              skToData s' sk = Some (map (rebasedAttr ch (nsExtend c u)) d) \<and>
              map_of (skToChanged s') sk =
                Some (map (\<lambda>p. (fst p, True)) (filter (editSurvives ch (nsExtend c u)) d)) \<and>
              getStatus s' sk = READY OR DIRTY
            else
              skToCommitted s' sk = None \<and> map_of (skToChanged s') sk = None \<and>
              getStatus s' sk = READY \<and>
              (\<exists>d'. skToData s' sk = Some d' \<and> map fst d = take (length d) (map fst d') \<and>
                 (\<forall>k. getAttr d' k =
                    (if k \<in> fst ` set (nsExtend c u) then getAttr (nsExtend c u) k
                     else getAttr d k))))"
proof -
  define u' where "u' = nsExtend c u"
  define nd where "nd = map (rebasedAttr ch u') d"
  define nc where "nc = map (\<lambda>p. (fst p, True)) (filter (editSurvives ch u') d)"
  have raw: "rawStatus s sk = st" by (simp add: rawStatus_def st)
  have dd: "distinct (map fst d)" using wf by (simp add: wfHash_def)
  have wfu: "wfHash u'" unfolding u'_def using wf(2) by (rule wfHash_nsExtend)
  have loop: "rebaseLoop ch u' d ([], [], True) = (nd, nc, \<not> (\<exists>p \<in> set d. editSurvives ch u' p))"
    using rebaseLoop_eq [OF dd _ _ names, of "[]" "[]" ch u' True]
    by (simp add: nd_def nc_def)
  define s2 where "s2 = s\<lparr>skToCommitted := (skToCommitted s)(sk \<mapsto> u')\<rparr>"
  show ?thesis
  proof (cases "\<exists>p \<in> set d. editSurvives ch u' p")
    case alive: True
    define s3 where "s3 = setStatus sk (READY OR DIRTY)
       (snd (setHash sk (Some nd) False
          (s2\<lparr>skToChanged := AList.update sk nc (skToChanged s2),
              skToCommitted := (skToCommitted s2)(sk \<mapsto> u')\<rparr>)))"
    have step: "fetchUpdate T (i, u) s = Returned () s3"
      using reg st tabs rebase alive
      by (simp add: fetchUpdate_def raw extendOpt_Some Let_def u'_def [symmetric] loop s3_def s2_def)
    define s' where "s' = recordSetWasModified (Some T) s3"
    have fu: "sourceDidFetchUpdates T [(i, u)] s = Returned () s'"
      by (simp add: sourceDidFetchUpdates_def forEach_def step andThen_def s'_def)
    have com: "skToCommitted s' sk = Some u'"
      by (simp add: s'_def s3_def s2_def setHash_def updateHash_clean wrappers setStatus_def Let_def)
    have "fst (cleanLoop nd (d, [])) = nd"
      using wf(1) map_fst_rebasedAttr [of ch u' d] unfolding nd_def by (rule cleanLoop_overwrite)
    then have dat: "skToData s' sk = Some nd"
      by (simp add: s'_def s3_def s2_def setHash_def updateHash_clean wrappers setStatus_def Let_def
          tabs)
    have chg: "map_of (skToChanged s') sk = Some nc"
      by (simp add: s'_def s3_def s2_def setHash_def updateHash_clean wrappers setStatus_def Let_def
          update_conv')
    have sta: "getStatus s' sk = READY OR DIRTY"
      by (simp add: s'_def s3_def wrappers getStatus_setStatus status_bits)
    show ?thesis
      using fu com dat chg sta alive unfolding u'_def nd_def nc_def by auto
  next
    case clean: False
    define dropped where "dropped = s2\<lparr>skToChanged := AList.delete sk (skToChanged s2),
       skToCommitted := (skToCommitted s2)(sk := None)\<rparr>"
    define s3 where "s3 = setStatus sk READY (snd (updateHash sk (Some u') False dropped))"
    have step: "fetchUpdate T (i, u) s = Returned () s3"
      using reg st tabs rebase clean
      by (simp add: fetchUpdate_def raw extendOpt_Some Let_def u'_def [symmetric] loop s3_def
            s2_def dropped_def)
    define s' where "s' = recordSetWasModified (Some T) s3"
    have fu: "sourceDidFetchUpdates T [(i, u)] s = Returned () s'"
      by (simp add: sourceDidFetchUpdates_def forEach_def step andThen_def s'_def)
    define d' where "d' = fst (cleanLoop u' (d, []))"
    have com: "skToCommitted s' sk = None"
      by (simp add: s'_def s3_def s2_def dropped_def updateHash_clean wrappers setStatus_def Let_def)
    have chg: "map_of (skToChanged s') sk = None"
      by (simp add: s'_def s3_def s2_def dropped_def updateHash_clean wrappers setStatus_def Let_def
          delete_conv')
    have dat: "skToData s' sk = Some d'"
      by (simp add: s'_def s3_def s2_def dropped_def updateHash_clean wrappers setStatus_def Let_def
          tabs d'_def)
    have sta: "getStatus s' sk = READY"
      by (simp add: s'_def s3_def wrappers getStatus_setStatus status_bits)
    have attr: "getAttr d' k = (if k \<in> fst ` set u' then getAttr u' k else getAttr d k)" for k
      unfolding d'_def by (rule getAttr_cleanLoop_wf [OF wfu])
    have keys: "map fst d = take (length d) (map fst d')"
      unfolding d'_def by (rule cleanLoop_prefix)
    show ?thesis
      using fu com dat chg sta clean attr keys unfolding u'_def by auto
  qed
qed


theorem rebase_dirty_record_witness:
  "typeToIdToSk rebaseEdited (className T0) = Some [(''a'', 1)] \<and>
   skToStatus rebaseEdited 1 = Some (READY OR DIRTY) \<and>
   skToCommitted rebaseEdited 1 = Some [(''id'', JStr ''a''), (''a'', JNum 1), (''b'', JNum 1)] \<and>
   map_of (skToChanged rebaseEdited) 1 = Some [(''a'', True)] \<and>
   skToData rebaseEdited 1 = Some [(''id'', JStr ''a''), (''a'', JNum 2), (''b'', JNum 1)] \<and>
   rebaseConflicts rebaseEdited \<and>
   (\<exists>s'. sourceDidFetchUpdates T0 [(''a'', [(''b'', JNum 9)])] rebaseEdited = Returned () s' \<and>
      skToCommitted s' 1 = Some [(''id'', JStr ''a''), (''a'', JNum 1), (''b'', JNum 9)] \<and>
      skToData s' 1 = Some [(''id'', JStr ''a''), (''a'', JNum 2), (''b'', JNum 9)] \<and>
      map_of (skToChanged s') 1 = Some [(''a'', True)] \<and>
      getStatus s' 1 = READY OR DIRTY) \<and>
   (\<exists>s'. sourceDidFetchUpdates T0 [(''a'', [(''a'', JNum 2), (''b'', JNum 9)])] rebaseEdited =
        Returned () s' \<and>
      skToCommitted s' 1 = None \<and> map_of (skToChanged s') 1 = None \<and> getStatus s' 1 = READY \<and>
      (\<exists>d'. skToData s' 1 = Some d' \<and> getAttr d' ''a'' = JNum 2 \<and> getAttr d' ''b'' = JNum 9))"
proof -
  have h1: "typeToIdToSk rebaseEdited (className T0) = Some [(''a'', 1)]" by code_simp
  have h2: "map_of [(''a'', 1::nat)] ''a'' = Some 1" by simp
  have h3: "skToStatus rebaseEdited 1 = Some (READY OR DIRTY)" by code_simp
  have h4: "(READY OR DIRTY) AND READY \<noteq> 0" "(READY OR DIRTY) AND DIRTY \<noteq> 0"
    "(READY OR DIRTY) AND COMMITTING = 0"
    by (simp_all add: status_bits)
  have h5: "skToCommitted rebaseEdited 1 =
      Some [(''id'', JStr ''a''), (''a'', JNum 1), (''b'', JNum 1)]"
    "map_of (skToChanged rebaseEdited) 1 = Some [(''a'', True)]"
    "skToData rebaseEdited 1 = Some [(''id'', JStr ''a''), (''a'', JNum 2), (''b'', JNum 1)]"
    by code_simp+
  have h6: "rebaseConflicts rebaseEdited" by code_simp
  have h7: "wfHash [(''id'', JStr ''a''), (''a'', JNum 2), (''b'', JNum 1)]"
    "wfHash [(''id'', JStr ''a''), (''a'', JNum 1), (''b'', JNum 1)]"
    by (simp_all add: wfHash_def)
  have h8: "fst ` set [(''id'', JStr ''a''), (''a'', JNum 2), (''b'', JNum 1)] \<inter>
      set objectPrototypeNames = {}"
    by (simp add: objectPrototypeNames_def)
  have ext: "nsExtend [(''id'', JStr ''a''), (''a'', JNum 1), (''b'', JNum 1)] [(''b'', JNum 9)] =
      [(''id'', JStr ''a''), (''a'', JNum 1), (''b'', JNum 9)]"
    "nsExtend [(''id'', JStr ''a''), (''a'', JNum 1), (''b'', JNum 1)]
       [(''a'', JNum 2), (''b'', JNum 9)] =
      [(''id'', JStr ''a''), (''a'', JNum 2), (''b'', JNum 9)]"
    by (simp_all add: nsExtend_def)
  note eff = rebase_dirty_record [OF h1 h2 h3 h4 h5 h6 h7 h8]
  have one: "\<exists>s'. sourceDidFetchUpdates T0 [(''a'', [(''b'', JNum 9)])] rebaseEdited = Returned () s' \<and>
      skToCommitted s' 1 = Some [(''id'', JStr ''a''), (''a'', JNum 1), (''b'', JNum 9)] \<and>
      skToData s' 1 = Some [(''id'', JStr ''a''), (''a'', JNum 2), (''b'', JNum 9)] \<and>
      map_of (skToChanged s') 1 = Some [(''a'', True)] \<and>
      getStatus s' 1 = READY OR DIRTY"
    using eff [of "[(''b'', JNum 9)]"]
    by (simp add: ext editSurvives_def rebasedAttr_def getAttr_def)
  have two: "\<exists>s'. sourceDidFetchUpdates T0 [(''a'', [(''a'', JNum 2), (''b'', JNum 9)])] rebaseEdited =
        Returned () s' \<and>
      skToCommitted s' 1 = None \<and> map_of (skToChanged s') 1 = None \<and> getStatus s' 1 = READY \<and>
      (\<exists>d'. skToData s' 1 = Some d' \<and> getAttr d' ''a'' = JNum 2 \<and> getAttr d' ''b'' = JNum 9)"
    using eff [of "[(''a'', JNum 2), (''b'', JNum 9)]"]
    by (auto simp: ext editSurvives_def getAttr_def)
  show ?thesis
    using one two h1 h3 h5 h6 by simp
qed

section \<open>Loops over a payload\<close>

lemma foldE_final_induct:
  assumes "P s" "\<And>x acc s'. P s' \<Longrightarrow> P (final (f x acc s'))"
  shows "P (final (foldE f xs acc s))"
  using assms(1)
proof (induction xs arbitrary: acc s)
  case Nil
  then show ?case by simp
next
  case (Cons x xs)
  from Cons.prems have "P (final (f x acc s))" by (rule assms(2))
  then show ?case
    using Cons.IH by (cases "f x acc s") simp_all
qed

lemma forEach_final_induct:
  assumes "P s" "\<And>x s'. P s' \<Longrightarrow> P (final (f x s'))"
  shows "P (final (forEach f xs s))"
  unfolding forEach_def using assms by (rule foldE_final_induct)


lemma forEach_Cons:
  "forEach f (x # xs) s = (case f x s of Returned _ s' \<Rightarrow> forEach f xs s' | Thrown s' \<Rightarrow> Thrown s')"
  by (cases "f x s") (simp_all add: forEach_def)

lemma forEach_Nil: "forEach f [] s = Returned () s"
  by (simp add: forEach_def)

lemma forEach_append:
  "forEach f (xs @ ys) s =
     (case forEach f xs s of Returned _ s' \<Rightarrow> forEach f ys s' | Thrown s' \<Rightarrow> Thrown s')"
  by (induction xs arbitrary: s) (simp_all add: forEach_Cons forEach_Nil split: outcome.splits)


lemma and_nonzero_transfer: "(x::32 word) AND m \<noteq> 0 \<Longrightarrow> y AND m = x AND m \<Longrightarrow> y \<noteq> 0"
  by auto

lemma clear_committing_nonzero: "st AND READY \<noteq> 0 \<Longrightarrow> st AND NOT COMMITTING \<noteq> 0"
  by (erule and_nonzero_transfer) (simp add: status_bits and.assoc)

lemma set_obsolete_nonzero: "st OR OBSOLETE \<noteq> 0"
  by (simp add: or_eq_0_iff OBSOLETE_def)

lemma acked_nonzero: "st \<noteq> 0 \<Longrightarrow> acked st \<noteq> 0"
  by (simp add: acked_def clear_committing_nonzero set_obsolete_nonzero)






lemma acked_settled:
  "st AND READY \<noteq> 0 \<Longrightarrow> st AND COMMITTING = 0 \<Longrightarrow> acked st = st OR OBSOLETE"
  by (simp add: acked_def)


subsection \<open>sourceDidCommitUpdate, repeated\<close>






subsection \<open>sourceDidCommitCreate, repeated\<close>










subsection \<open>A loop that finds its work done\<close>



subsection \<open>sourceDidNotDestroy, repeated\<close>








subsection \<open>sourceHasUpdatesForRecords, repeated\<close>





lemma raw_ready: "rawStatus t k AND READY \<noteq> 0 \<Longrightarrow> rawStatus t k = getStatus t k"
  by (auto simp: rawStatus_def getStatus_def split: option.splits)






section \<open>Repeating the acknowledgement of a commit\<close>





section \<open>Discarding the pending changes\<close>

lemma forEach_Returned_mem_induct:
  assumes "forEach f xs s = Returned () s'" "P s"
    and "\<And>x a b. x \<in> set xs \<Longrightarrow> P a \<Longrightarrow> f x a = Returned () b \<Longrightarrow> P b"
  shows "P s'"
  using assms
proof (induction xs arbitrary: s)
  case Nil
  then show ?case by (simp add: forEach_Nil)
next
  case (Cons x xs)
  from Cons.prems(1) obtain a where a: "f x s = Returned () a" "forEach f xs a = Returned () s'"
    by (auto simp: forEach_Cons split: outcome.splits)
  have "P a" using Cons.prems(2) a(1) by (intro Cons.prems(3) [of x s a]) simp_all
  with a(2) show ?case
    by (rule Cons.IH) (auto intro: Cons.prems(3))
qed

lemma forEach_frame:
  assumes "forEach f xs s = Returned () s'"
    and "\<And>x a b. x \<in> set xs \<Longrightarrow> f x a = Returned () b \<Longrightarrow> V b = V a"
  shows "V s' = V s"
  using assms(1)
  by (rule forEach_Returned_mem_induct [where P = "\<lambda>t. V t = V s"]) (simp_all add: assms(2))

lemma forEach_key_step:
  assumes run: "forEach f xs s = Returned () s'" and d: "distinct xs" and k: "k \<in> set xs"
    and frame: "\<And>x a b. x \<noteq> k \<Longrightarrow> f x a = Returned () b \<Longrightarrow> V b = V a"
    and step: "\<And>a b. f k a = Returned () b \<Longrightarrow> V a = V s \<Longrightarrow> Q (V b)"
  shows "Q (V s')"
proof -
  from k obtain pre post where xs: "xs = pre @ k # post"
    by (auto simp: in_set_conv_decomp)
  with d have npre: "k \<notin> set pre" and npost: "k \<notin> set post" by auto
  from run obtain a where a: "forEach f pre s = Returned () a"
    and rest: "forEach f (k # post) a = Returned () s'"
    by (auto simp: xs forEach_append split: outcome.splits)
  from rest obtain b where b: "f k a = Returned () b" and post: "forEach f post b = Returned () s'"
    by (auto simp: forEach_Cons split: outcome.splits)
  have "V a = V s"
    using a npre by (intro forEach_frame [OF a] frame) auto
  with b have "Q (V b)" by (rule step)
  moreover have "V s' = V b"
    using post npost by (intro forEach_frame [OF post] frame) auto
  ultimately show ?thesis by simp
qed

subsection \<open>The three loops of discardChanges\<close>

lemma mayUnloadRecord_destroyed:
  "mayUnloadRecord (setStatus k DESTROYED s) k =
     (\<not> (skToRecord s k \<and> recordHasObservers s k) \<and>
      list_all (\<lambda>n. nestedMayUnload s n k) (nestedStores s))"
proof -
  have "getStatus (setStatus k DESTROYED s) k = DESTROYED"
    by (simp add: getStatus_setStatus DESTROYED_def)
  moreover have "DESTROYED AND NOT (EMPTY OR READY OR DESTROYED) = 0"
    by (simp add: status_bits)
  ultimately show ?thesis
    by (simp add: mayUnloadRecord_def Let_def) (simp add: setStatus_def Let_def wrappers)
qed

lemma unloadRecord_other:
  assumes "unloadRecord j a = Returned r b" "j \<noteq> k"
  shows "skToStatus b k = skToStatus a k" "skToData b k = skToData a k"
    "skToType b k = skToType a k" "skToRecord b k = skToRecord a k"
    "recordHasObservers b = recordHasObservers a" "nestedStores b = nestedStores a"
    "nestedMayUnload b = nestedMayUnload a" "skToCommitted b = skToCommitted a"
    "skToChanged b = skToChanged a" "created b = created a" "destroyed b = destroyed a"
  using assms
  by (auto simp: unloadRecord_def Let_def split: if_splits option.splits)

lemma unloadRecord_key:
  assumes "unloadRecord k a = Returned r b"
  shows "if mayUnloadRecord a k
         then r \<and> skToStatus b k = None \<and> skToData b k = None \<and> skToType b k = None \<and>
              \<not> skToRecord b k
         else \<not> r \<and> b = a"
  using assms
  by (auto simp: unloadRecord_def Let_def split: if_splits option.splits)

lemma discardCreated_other:
  assumes "discardCreated j a = Returned () b" "j \<noteq> k"
  shows "skToStatus b k = skToStatus a k" "skToData b k = skToData a k"
    "skToType b k = skToType a k" "skToRecord b k = skToRecord a k"
    "recordHasObservers b = recordHasObservers a" "nestedStores b = nestedStores a"
    "nestedMayUnload b = nestedMayUnload a" "skToCommitted b = skToCommitted a"
    "skToChanged b = skToChanged a" "created b = created a" "destroyed b = destroyed a"
proof -
  from assms(1) obtain r where u: "unloadRecord j (setStatus j DESTROYED a) = Returned r b"
    by (auto simp: discardCreated_def andThen_def split: outcome.splits)
  note o = unloadRecord_other [OF u assms(2)]
  show "skToStatus b k = skToStatus a k" "skToData b k = skToData a k"
    "skToType b k = skToType a k" "skToRecord b k = skToRecord a k"
    "recordHasObservers b = recordHasObservers a" "nestedStores b = nestedStores a"
    "nestedMayUnload b = nestedMayUnload a" "skToCommitted b = skToCommitted a"
    "skToChanged b = skToChanged a" "created b = created a" "destroyed b = destroyed a"
    using o assms(2) by (simp_all add: setStatus_other_fields setStatus_other_key)
qed

lemma discardCreated_key:
  assumes "discardCreated k a = Returned () b"
  shows "if mayUnloadRecord (setStatus k DESTROYED a) k
         then skToStatus b k = None \<and> skToData b k = None \<and> skToType b k = None \<and>
              \<not> skToRecord b k
         else getStatus b k = DESTROYED \<and> skToData b k = skToData a k \<and>
              skToRecord b k = skToRecord a k"
proof -
  from assms(1) obtain r where u: "unloadRecord k (setStatus k DESTROYED a) = Returned r b"
    by (auto simp: discardCreated_def andThen_def split: outcome.splits)
  have "getStatus (setStatus k DESTROYED a) k = DESTROYED"
    by (simp add: getStatus_setStatus DESTROYED_def)
  then show ?thesis
    using unloadRecord_key [OF u]
    by (auto simp: setStatus_other_fields split: if_splits)
qed

lemma discardChanged_other:
  assumes "discardChanged j a = Returned () b" "j \<noteq> k"
  shows "skToStatus b k = skToStatus a k" "skToData b k = skToData a k"
    "skToType b k = skToType a k" "skToRecord b k = skToRecord a k"
    "recordHasObservers b = recordHasObservers a" "nestedStores b = nestedStores a"
    "nestedMayUnload b = nestedMayUnload a" "skToCommitted b = skToCommitted a"
    "skToChanged b = skToChanged a" "created b = created a" "destroyed b = destroyed a"
  using assms
  by (auto simp: discardChanged_def Let_def setHash_def updateHash_clean wrappers
      setStatus_other_fields setStatus_other_key)

lemma discardChanged_key:
  assumes "discardChanged k a = Returned () b"
  shows "getStatus b k = READY OR (getStatus a k AND (OBSOLETE OR LOADING OR COMMITTING))"
    and "skToData b k =
      Some (fst (cleanLoop (case skToCommitted a k of Some c \<Rightarrow> c | None \<Rightarrow> [])
                   (case skToData a k of Some d \<Rightarrow> d | None \<Rightarrow> [], [])))"
    and "skToCommitted b = skToCommitted a"
proof -
  have nz: "READY OR (st AND (OBSOLETE OR LOADING OR COMMITTING)) \<noteq> 0" for st :: status
    by (simp add: or_eq_0_iff READY_def)
  have g: "getStatus (snd (setHash k (skToCommitted a k) False a)) k = getStatus a k"
    by (simp add: setHash_def updateHash_clean wrappers)
  show "getStatus b k = READY OR (getStatus a k AND (OBSOLETE OR LOADING OR COMMITTING))"
    using assms nz by (auto simp: discardChanged_def Let_def getStatus_setStatus g)
  show "skToData b k =
      Some (fst (cleanLoop (case skToCommitted a k of Some c \<Rightarrow> c | None \<Rightarrow> [])
                   (case skToData a k of Some d \<Rightarrow> d | None \<Rightarrow> [], [])))"
    using assms
    by (auto simp: discardChanged_def Let_def setHash_def updateHash_clean wrappers
        setStatus_other_fields)
  show "skToCommitted b = skToCommitted a"
    using assms
    by (auto simp: discardChanged_def Let_def setHash_def updateHash_clean wrappers
        setStatus_other_fields)
qed

lemma discardDestroyed_other:
  assumes "discardDestroyed j a = Returned () b" "j \<noteq> k"
  shows "skToStatus b k = skToStatus a k" "skToData b k = skToData a k"
    "skToType b k = skToType a k" "skToRecord b k = skToRecord a k"
    "skToChanged b = skToChanged a" "created b = created a" "destroyed b = destroyed a"
  using assms
  by (auto simp: discardDestroyed_def setStatus_other_fields setStatus_other_key)

lemma discardDestroyed_key:
  assumes "discardDestroyed k a = Returned () b"
  shows "getStatus b k = READY OR (getStatus a k AND OBSOLETE)"
    "skToChanged b = skToChanged a" "created b = created a" "destroyed b = destroyed a"
    "skToData b = skToData a"
proof -
  have nz: "READY OR (st AND OBSOLETE) \<noteq> 0" for st :: status
    by (simp add: or_eq_0_iff READY_def)
  show "getStatus b k = READY OR (getStatus a k AND OBSOLETE)"
    using assms nz by (auto simp: discardDestroyed_def getStatus_setStatus)
  show "skToChanged b = skToChanged a" "created b = created a" "destroyed b = destroyed a"
    "skToData b = skToData a"
    using assms by (auto simp: discardDestroyed_def setStatus_other_fields)
qed

lemma getStatus_entry: "skToStatus b k = skToStatus a k \<Longrightarrow> getStatus b k = getStatus a k"
  by (simp add: getStatus_def)

text \<open>
  C8 (counterexample).  In \<open>addedAttr\<close> the dirty record has the committed snapshot
  \<open>{id:a, x:1}\<close> and the data \<open>{id:a, x:1, y:2}\<close>; after \<open>discardChanges\<close> the data still
  has \<open>y\<close>, so it is not the committed snapshot.  In \<open>observedCreated\<close> the created record has
  observers; after \<open>discardChanges\<close> it is DESTROYED but not unloaded: its data and its
  record object are still in the store.  In \<open>raceNotUpdated\<close> the record is READY|DIRTY
  but not in the journal of changes (\<open>sourceDidNotUpdate\<close> left it so); \<open>discardChanges\<close>
  leaves it READY|DIRTY with its edit and discards its committed snapshot.  In
  \<open>createdAndDestroyed\<close> key 1 is pending create and pending destroy, with status
  READY|NEW|OBSOLETE; it ends READY, neither DESTROYED nor READY|OBSOLETE.  In
  \<open>createdAndChanged\<close> key 1 is pending create and in the journal of changes; it ends
  READY, not DESTROYED.  In \<open>changedAndDestroyed\<close> key 1 is dirty with LOADING set and
  pending destroy; it ends READY|OBSOLETE, without LOADING.
\<close>

theorem discardChanges_counterexample:
  "map fst (skToChanged addedAttr) = [1] \<and>
   skToCommitted addedAttr 1 = Some [(''id'', JStr ''a''), (''x'', JNum 1)] \<and>
   returned (discardChanges addedAttr) \<and>
   skToData (final (discardChanges addedAttr)) 1 =
     Some [(''id'', JStr ''a''), (''x'', JNum 1), (''y'', JNum 2)] \<and>
   skToData (final (discardChanges addedAttr)) 1 \<noteq> skToCommitted addedAttr 1 \<and>
   created observedCreated = [1] \<and> skToRecord observedCreated 1 \<and>
   returned (discardChanges observedCreated) \<and>
   skToStatus (final (discardChanges observedCreated)) 1 = Some DESTROYED \<and>
   skToData (final (discardChanges observedCreated)) 1 = Some [(''name'', JStr ''n'')] \<and>
   skToRecord (final (discardChanges observedCreated)) 1 \<and>
   skToChanged raceNotUpdated = [] \<and> created raceNotUpdated = [] \<and>
   destroyed raceNotUpdated = [] \<and>
   getStatus raceNotUpdated 1 = READY OR DIRTY \<and>
   skToData raceNotUpdated 1 = Some [(''id'', JStr ''a''), (''x'', JNum 2)] \<and>
   skToCommitted raceNotUpdated 1 = Some [(''id'', JStr ''a''), (''x'', JNum 1)] \<and>
   returned (discardChanges raceNotUpdated) \<and>
   getStatus (final (discardChanges raceNotUpdated)) 1 = READY OR DIRTY \<and>
   skToData (final (discardChanges raceNotUpdated)) 1 =
     Some [(''id'', JStr ''a''), (''x'', JNum 2)] \<and>
   skToCommitted (final (discardChanges raceNotUpdated)) 1 = None \<and>
   created createdAndDestroyed = [1] \<and> destroyed createdAndDestroyed = [1] \<and>
   skToChanged createdAndDestroyed = [] \<and>
   getStatus createdAndDestroyed 1 = READY OR NEW OR OBSOLETE \<and>
   returned (discardChanges createdAndDestroyed) \<and>
   skToStatus (final (discardChanges createdAndDestroyed)) 1 = Some READY \<and>
   skToData (final (discardChanges createdAndDestroyed)) 1 = None \<and>
   created createdAndChanged = [1] \<and> destroyed createdAndChanged = [] \<and>
   map fst (skToChanged createdAndChanged) = [1] \<and>
   getStatus createdAndChanged 1 = READY OR NEW \<and>
   returned (discardChanges createdAndChanged) \<and>
   skToStatus (final (discardChanges createdAndChanged)) 1 = Some READY \<and>
   skToRecord (final (discardChanges createdAndChanged)) 1 \<and>
   created changedAndDestroyed = [] \<and> destroyed changedAndDestroyed = [1] \<and>
   map fst (skToChanged changedAndDestroyed) = [1] \<and>
   getStatus changedAndDestroyed 1 = READY OR LOADING OR DIRTY OR OBSOLETE \<and>
   returned (discardChanges changedAndDestroyed) \<and>
   skToStatus (final (discardChanges changedAndDestroyed)) 1 = Some (READY OR OBSOLETE)"
  by code_simp

text \<open>
  C8 (amended).  When \<open>discardChanges\<close> returns, from a store whose journals each hold
  every key once: the created, destroyed and changed journals are empty and every
  committed snapshot is discarded.  Every key of the journal of changes that is in no
  other journal has every attribute of its committed snapshot written back over its
  data (an attribute that the snapshot does not have keeps its value) and has status
  READY plus only its previous OBSOLETE, LOADING and COMMITTING bits.  Every key
  pending destroy that is not pending create has status READY plus only its previous
  OBSOLETE bit.  Every key pending create that is in no other journal has been set
  DESTROYED, and is unloaded if \<open>mayUnloadRecord\<close> allows it (no observers, no objection
  of a nested store), and otherwise stays in the store as DESTROYED.  A key in no
  journal keeps its status and its data, also when its status has DIRTY.
\<close>

theorem discardChanges_effect:
  assumes ret: "discardChanges s = Returned () s'"
    and wf: "distinct (created s)" "distinct (map fst (skToChanged s))" "distinct (destroyed s)"
  shows "created s' = [] \<and> destroyed s' = [] \<and> skToChanged s' = [] \<and>
    skToCommitted s' = Map.empty \<and>
    (\<forall>k \<in> fst ` set (skToChanged s). k \<notin> set (created s) \<longrightarrow> k \<notin> set (destroyed s) \<longrightarrow>
       getStatus s' k = READY OR (getStatus s k AND (OBSOLETE OR LOADING OR COMMITTING)) \<and>
       (\<exists>d'. skToData s' k = Some d' \<and>
          (\<forall>c. skToCommitted s k = Some c \<longrightarrow> wfHash c \<longrightarrow>
             (\<forall>a. getAttr d' a =
                (if a \<in> fst ` set c then getAttr c a
                 else getAttr (case skToData s k of Some d \<Rightarrow> d | None \<Rightarrow> []) a))))) \<and>
    (\<forall>k \<in> set (destroyed s). k \<notin> set (created s) \<longrightarrow>
       getStatus s' k = READY OR (getStatus s k AND OBSOLETE)) \<and>
    (\<forall>k \<in> set (created s). k \<notin> fst ` set (skToChanged s) \<longrightarrow> k \<notin> set (destroyed s) \<longrightarrow>
       (if mayUnloadRecord (setStatus k DESTROYED s) k
        then skToStatus s' k = None \<and> skToData s' k = None \<and> skToType s' k = None \<and>
             \<not> skToRecord s' k
        else getStatus s' k = DESTROYED \<and> skToData s' k = skToData s k \<and>
             skToRecord s' k = skToRecord s k)) \<and>
    (\<forall>k. k \<notin> set (created s) \<longrightarrow> k \<notin> fst ` set (skToChanged s) \<longrightarrow> k \<notin> set (destroyed s) \<longrightarrow>
       skToStatus s' k = skToStatus s k \<and> skToData s' k = skToData s k)"
proof -
  from ret obtain s1 s2 s3 where
    l1: "forEach discardCreated (created s) s = Returned () s1" and
    l2: "forEach discardChanged (map fst (skToChanged s)) s1 = Returned () s2" and
    l3: "forEach discardDestroyed (destroyed s)
           (s2\<lparr>skToChanged := [], skToCommitted := Map.empty\<rparr>) = Returned () s3" and
    fin: "s' = recordSetWasModified None (s3\<lparr>created := [], destroyed := []\<rparr>)"
    by (auto simp: discardChanges_def andThen_def split: outcome.splits)
  define s2' where "s2' = s2\<lparr>skToChanged := [], skToCommitted := Map.empty\<rparr>"
  note l3 = l3 [folded s2'_def]
  have fin_fields: "skToStatus s' = skToStatus s3" "skToData s' = skToData s3"
    "skToType s' = skToType s3" "skToRecord s' = skToRecord s3" "skToChanged s' = skToChanged s3"
    "created s' = []" "destroyed s' = []" "getStatus s' = getStatus s3"
    by (simp_all add: fin wrappers getStatus_def fun_eq_iff)
  have "skToChanged s3 = skToChanged s2'"
    using l3 by (rule forEach_frame) (simp add: discardDestroyed_key)
  then have journals: "created s' = [] \<and> destroyed s' = [] \<and> skToChanged s' = []"
    by (simp add: fin_fields s2'_def)
  have changed: "getStatus s' k = READY OR (getStatus s k AND (OBSOLETE OR LOADING OR COMMITTING)) \<and>
       (\<exists>d'. skToData s' k = Some d' \<and>
          (\<forall>c. skToCommitted s k = Some c \<longrightarrow> wfHash c \<longrightarrow>
             (\<forall>a. getAttr d' a =
                (if a \<in> fst ` set c then getAttr c a
                 else getAttr (case skToData s k of Some d \<Rightarrow> d | None \<Rightarrow> []) a))))"
    if k: "k \<in> fst ` set (skToChanged s)" and nc: "k \<notin> set (created s)"
      and nd: "k \<notin> set (destroyed s)" for k
  proof -
    define V where "V = (\<lambda>t. (getStatus t k, skToData t k, skToCommitted t k))"
    define dat where "dat = fst (cleanLoop (case skToCommitted s k of Some c \<Rightarrow> c | None \<Rightarrow> [])
                   (case skToData s k of Some d \<Rightarrow> d | None \<Rightarrow> [], []))"
    have v1: "V s1 = V s"
      using l1
    proof (rule forEach_frame)
      fix x a b assume "x \<in> set (created s)" "discardCreated x a = Returned () b"
      with nc show "V b = V a"
        by (auto simp: V_def dest: discardCreated_other intro: getStatus_entry)
    qed
    define Q where "Q = (\<lambda>(st, d, c :: hash option).
       st = READY OR (getStatus s k AND (OBSOLETE OR LOADING OR COMMITTING)) \<and> d = Some dat)"
    have "Q (V s2)"
      using l2 wf(2)
    proof (rule forEach_key_step [where V = V and Q = Q])
      show "k \<in> set (map fst (skToChanged s))" using k by simp
    next
      fix x a b assume "x \<noteq> k" "discardChanged x a = Returned () b"
      then show "V b = V a"
        by (auto simp: V_def dest: discardChanged_other intro: getStatus_entry)
    next
      fix a b assume "discardChanged k a = Returned () b" "V a = V s1"
      then show "Q (V b)"
        using discardChanged_key [of k a b] v1 by (simp add: V_def Q_def dat_def)
    qed
    then have s2: "getStatus s2 k = READY OR (getStatus s k AND (OBSOLETE OR LOADING OR COMMITTING))"
      "skToData s2 k = Some dat"
      by (simp_all add: V_def Q_def)
    define W where "W = (\<lambda>t. (getStatus t k, skToData t k))"
    have "W s3 = W s2'"
      using l3
    proof (rule forEach_frame)
      fix x a b assume "x \<in> set (destroyed s)" "discardDestroyed x a = Returned () b"
      with nd show "W b = W a"
        by (auto simp: W_def dest: discardDestroyed_other intro: getStatus_entry)
    qed
    then have s': "getStatus s' k = READY OR (getStatus s k AND (OBSOLETE OR LOADING OR COMMITTING))"
      "skToData s' k = Some dat"
      using s2 by (simp_all add: W_def fin_fields s2'_def)
    have "getAttr dat a = (if a \<in> fst ` set c then getAttr c a
        else getAttr (case skToData s k of Some d \<Rightarrow> d | None \<Rightarrow> []) a)"
      if "skToCommitted s k = Some c" "wfHash c" for c a
      unfolding dat_def using that by (simp add: getAttr_cleanLoop_wf)
    with s' show ?thesis by blast
  qed
  have destroyed: "getStatus s' k = READY OR (getStatus s k AND OBSOLETE)"
    if k: "k \<in> set (destroyed s)" and nc: "k \<notin> set (created s)" for k
  proof -
    define V where "V = (\<lambda>t. getStatus t k)"
    have v1: "V s1 = V s"
      using l1
    proof (rule forEach_frame)
      fix x a b assume "x \<in> set (created s)" "discardCreated x a = Returned () b"
      with nc show "V b = V a"
        by (auto simp: V_def dest: discardCreated_other intro: getStatus_entry)
    qed
    have v2: "V s2 AND OBSOLETE = V s AND OBSOLETE"
    proof (cases "k \<in> fst ` set (skToChanged s)")
      case False
      have "V s2 = V s1"
        using l2
      proof (rule forEach_frame)
        fix x a b assume x: "x \<in> set (map fst (skToChanged s))"
          and step: "discardChanged x a = Returned () b"
        from x False have "x \<noteq> k" by auto
        with step show "V b = V a"
          by (auto simp: V_def dest: discardChanged_other intro: getStatus_entry)
      qed
      with v1 show ?thesis by simp
    next
      case True
      define Q where "Q = (\<lambda>st. st = READY OR (getStatus s k AND (OBSOLETE OR LOADING OR COMMITTING)))"
      have "Q (V s2)"
        using l2 wf(2)
      proof (rule forEach_key_step [where V = V and Q = Q])
        show "k \<in> set (map fst (skToChanged s))" using True by simp
      next
        fix x a b assume "x \<noteq> k" "discardChanged x a = Returned () b"
        then show "V b = V a"
          by (auto simp: V_def dest: discardChanged_other intro: getStatus_entry)
      next
        fix a b assume "discardChanged k a = Returned () b" "V a = V s1"
        then show "Q (V b)"
          using discardChanged_key(1) [of k a b] v1 by (simp add: V_def Q_def)
      qed
      then have "V s2 = READY OR (V s AND (OBSOLETE OR LOADING OR COMMITTING))"
        by (simp add: Q_def V_def)
      then show ?thesis
        by (simp add: status_bits word_ao_dist and.assoc)
    qed
    have v2': "V s2' AND OBSOLETE = V s AND OBSOLETE" using v2 by (simp add: V_def s2'_def)
    define Q where "Q = (\<lambda>st. st = READY OR (getStatus s k AND OBSOLETE))"
    have "Q (V s3)"
      using l3 wf(3) k
    proof (rule forEach_key_step [where V = V and Q = Q])
      fix x a b assume "x \<noteq> k" "discardDestroyed x a = Returned () b"
      then show "V b = V a"
        by (auto simp: V_def dest: discardDestroyed_other intro: getStatus_entry)
    next
      fix a b assume "discardDestroyed k a = Returned () b" "V a = V s2'"
      then show "Q (V b)"
        using discardDestroyed_key(1) [of k a b] v2' by (simp add: V_def Q_def)
    qed
    then show ?thesis by (simp add: V_def Q_def fin_fields)
  qed
  have other: "skToStatus s' k = skToStatus s k \<and> skToData s' k = skToData s k"
    if nc: "k \<notin> set (created s)" and nch: "k \<notin> fst ` set (skToChanged s)"
      and nd: "k \<notin> set (destroyed s)" for k
  proof -
    define W where "W = (\<lambda>t :: store. (skToStatus t k, skToData t k))"
    have w1: "W s1 = W s"
      using l1
    proof (rule forEach_frame)
      fix x a b assume "x \<in> set (created s)" "discardCreated x a = Returned () b"
      with nc show "W b = W a"
        by (auto simp: W_def dest: discardCreated_other)
    qed
    have w2: "W s2 = W s1"
      using l2
    proof (rule forEach_frame)
      fix x a b assume x: "x \<in> set (map fst (skToChanged s))"
        and step: "discardChanged x a = Returned () b"
      from x nch have "x \<noteq> k" by auto
      with step show "W b = W a"
        by (auto simp: W_def dest: discardChanged_other)
    qed
    have w3: "W s3 = W s2'"
      using l3
    proof (rule forEach_frame)
      fix x a b assume "x \<in> set (destroyed s)" "discardDestroyed x a = Returned () b"
      with nd show "W b = W a"
        by (auto simp: W_def dest: discardDestroyed_other)
    qed
    show ?thesis
      using w1 w2 w3 by (simp add: W_def fin_fields s2'_def)
  qed
  have committed: "skToCommitted s' = Map.empty"
  proof -
    have "skToCommitted s3 = skToCommitted s2'"
      using l3 by (rule forEach_frame) (auto simp: discardDestroyed_def setStatus_other_fields)
    then show ?thesis by (simp add: fin wrappers s2'_def)
  qed
  have created: "if mayUnloadRecord (setStatus k DESTROYED s) k
       then skToStatus s' k = None \<and> skToData s' k = None \<and> skToType s' k = None \<and>
            \<not> skToRecord s' k
       else getStatus s' k = DESTROYED \<and> skToData s' k = skToData s k \<and>
            skToRecord s' k = skToRecord s k"
    if k: "k \<in> set (created s)" and nch: "k \<notin> fst ` set (skToChanged s)"
      and nd: "k \<notin> set (destroyed s)" for k
  proof -
    define V where "V = (\<lambda>t :: store. (skToStatus t k, skToData t k, skToType t k, skToRecord t k,
       recordHasObservers t, nestedStores t, nestedMayUnload t))"
    define Q where "Q = (\<lambda>(st, d, ty :: rtype option, r, ob :: storeKey \<Rightarrow> bool, ns :: nat list,
         nm :: nat \<Rightarrow> storeKey \<Rightarrow> bool).
       if mayUnloadRecord (setStatus k DESTROYED s) k
       then st = None \<and> d = None \<and> ty = None \<and> \<not> r
       else st = Some DESTROYED \<and> d = skToData s k \<and> r = skToRecord s k)"
    have q1: "Q (V s1)"
      using l1 wf(1) k
    proof (rule forEach_key_step [where V = V and Q = Q])
      fix x a b assume "x \<noteq> k" "discardCreated x a = Returned () b"
      then show "V b = V a"
        by (auto simp: V_def dest: discardCreated_other)
    next
      fix a b assume step: "discardCreated k a = Returned () b" and va: "V a = V s"
      from va have "mayUnloadRecord (setStatus k DESTROYED a) k =
          mayUnloadRecord (setStatus k DESTROYED s) k"
        by (simp add: mayUnloadRecord_destroyed V_def)
      moreover have "skToStatus b k = Some DESTROYED"
        if "getStatus b k = DESTROYED" "skToStatus b k \<noteq> None"
        using that by (auto simp: getStatus_def status_bits split: option.splits if_splits)
      moreover have "skToStatus b k \<noteq> None" if "\<not> mayUnloadRecord (setStatus k DESTROYED a) k"
      proof -
        from step obtain r where u: "unloadRecord k (setStatus k DESTROYED a) = Returned r b"
          by (auto simp: discardCreated_def andThen_def split: outcome.splits)
        with that have "b = setStatus k DESTROYED a"
          using unloadRecord_key [OF u] by simp
        then show ?thesis
          by (auto simp: setStatus_def Let_def wrappers getStatus_def status_bits
              split: option.splits if_splits)
      qed
      ultimately show "Q (V b)"
        using discardCreated_key [OF step] va
        by (auto simp: Q_def V_def split: if_splits)
    qed
    define W where "W = (\<lambda>t :: store. (skToStatus t k, skToData t k, skToType t k, skToRecord t k))"
    have w2: "W s2 = W s1"
      using l2
    proof (rule forEach_frame)
      fix x a b assume x: "x \<in> set (map fst (skToChanged s))"
        and step: "discardChanged x a = Returned () b"
      from x nch have "x \<noteq> k" by auto
      with step show "W b = W a"
        by (auto simp: W_def dest: discardChanged_other)
    qed
    have w3: "W s3 = W s2'"
      using l3
    proof (rule forEach_frame)
      fix x a b assume "x \<in> set (destroyed s)" "discardDestroyed x a = Returned () b"
      with nd show "W b = W a"
        by (auto simp: W_def dest: discardDestroyed_other)
    qed
    have "W s' = W s1"
      using w2 w3 by (simp add: W_def fin_fields s2'_def)
    with q1 show ?thesis
      by (auto simp: Q_def V_def W_def getStatus_def DESTROYED_def split: if_splits)
  qed
  show ?thesis
    using journals committed changed destroyed created other by blast
qed

text \<open>The store written out is the one the operations build.\<close>

lemma pendingStore_reached:
  "skToRecord discardStart 1 = skToRecord pendingStore 1 \<and>
   skToRecord discardStart 2 = skToRecord pendingStore 2 \<and>
   skToRecord discardStart 3 = skToRecord pendingStore 3 \<and>
   skToData discardStart 1 = skToData pendingStore 1 \<and>
   skToData discardStart 2 = skToData pendingStore 2 \<and>
   skToData discardStart 3 = skToData pendingStore 3 \<and>
   skToStatus discardStart 1 = skToStatus pendingStore 1 \<and>
   skToStatus discardStart 2 = skToStatus pendingStore 2 \<and>
   skToStatus discardStart 3 = skToStatus pendingStore 3 \<and>
   skToType discardStart 3 = skToType pendingStore 3 \<and>
   typeToSkToId discardStart ''T'' = typeToSkToId pendingStore ''T'' \<and>
   typeToIdToSk discardStart ''T'' = typeToIdToSk pendingStore ''T'' \<and>
   skToChanged discardStart = skToChanged pendingStore \<and>
   skToCommitted discardStart 1 = skToCommitted pendingStore 1 \<and>
   created discardStart = created pendingStore \<and>
   destroyed discardStart = destroyed pendingStore \<and>
   nextKey discardStart = nextKey pendingStore"
  by code_simp

lemma returned_final: "returned r \<Longrightarrow> r = Returned () (final r)"
  by (cases r) simp_all

theorem discardChanges_effect_witness:
  "returned (discardChanges pendingStore) \<and>
   created pendingStore = [3] \<and> skToChanged pendingStore = [(1, [(''x'', True)])] \<and>
   destroyed pendingStore = [2] \<and>
   getStatus pendingStore 1 = READY OR DIRTY \<and> getStatus pendingStore 2 = DESTROYED OR DIRTY \<and>
   getStatus pendingStore 3 = READY OR NEW \<and>
   created (final (discardChanges pendingStore)) = [] \<and>
   destroyed (final (discardChanges pendingStore)) = [] \<and>
   skToChanged (final (discardChanges pendingStore)) = [] \<and>
   skToCommitted (final (discardChanges pendingStore)) = Map.empty \<and>
   getStatus (final (discardChanges pendingStore)) 1 = READY \<and>
   skToData (final (discardChanges pendingStore)) 1 = Some [(''id'', JStr ''a''), (''x'', JNum 1)] \<and>
   getStatus (final (discardChanges pendingStore)) 2 = READY \<and>
   skToStatus (final (discardChanges pendingStore)) 3 = None \<and>
   skToData (final (discardChanges pendingStore)) 3 = None \<and>
   skToStatus (final (discardChanges pendingStore)) 4 = None"
proof -
  have r: "returned (discardChanges pendingStore)" by code_simp
  have j: "created pendingStore = [3]" "skToChanged pendingStore = [(1, [(''x'', True)])]"
    "destroyed pendingStore = [2]"
    by (simp_all add: pendingStore_def)
  have st: "getStatus pendingStore 1 = READY OR DIRTY"
    "getStatus pendingStore 2 = DESTROYED OR DIRTY" "getStatus pendingStore 3 = READY OR NEW"
    "skToStatus pendingStore 4 = None"
    by code_simp+
  have may: "mayUnloadRecord (setStatus 3 DESTROYED pendingStore) 3" by code_simp
  have dat: "skToData (final (discardChanges pendingStore)) 1 =
      Some [(''id'', JStr ''a''), (''x'', JNum 1)]"
    by code_simp
  have bits: "READY OR ((READY OR DIRTY) AND (OBSOLETE OR LOADING OR COMMITTING)) = READY"
    "READY OR ((DESTROYED OR DIRTY) AND OBSOLETE) = READY"
    by (simp_all add: status_bits)
  have w: "distinct (created pendingStore)" "distinct (map fst (skToChanged pendingStore))"
    "distinct (destroyed pendingStore)"
    by (simp_all add: j)
  note eff = discardChanges_effect [OF returned_final [OF r] w]
  have mem: "1 \<in> fst ` set (skToChanged pendingStore)" "2 \<in> set (destroyed pendingStore)"
    "3 \<in> set (created pendingStore)"
    "1 \<notin> set (created pendingStore)" "1 \<notin> set (destroyed pendingStore)"
    "2 \<notin> set (created pendingStore)"
    "3 \<notin> fst ` set (skToChanged pendingStore)" "3 \<notin> set (destroyed pendingStore)"
    "4 \<notin> set (created pendingStore)" "4 \<notin> fst ` set (skToChanged pendingStore)"
    "4 \<notin> set (destroyed pendingStore)"
    by (simp_all add: j)
  have "getStatus (final (discardChanges pendingStore)) 1 =
      READY OR (getStatus pendingStore 1 AND (OBSOLETE OR LOADING OR COMMITTING))"
    using eff mem(1,4,5) by blast
  moreover have "getStatus (final (discardChanges pendingStore)) 2 =
      READY OR (getStatus pendingStore 2 AND OBSOLETE)"
    using eff mem(2,6) by blast
  moreover have "skToStatus (final (discardChanges pendingStore)) 3 = None \<and>
      skToData (final (discardChanges pendingStore)) 3 = None"
    using eff may mem(3,7,8) by (metis (no_types, lifting))
  moreover have "created (final (discardChanges pendingStore)) = [] \<and>
      destroyed (final (discardChanges pendingStore)) = [] \<and>
      skToChanged (final (discardChanges pendingStore)) = [] \<and>
      skToCommitted (final (discardChanges pendingStore)) = Map.empty"
    using eff by blast
  moreover have "skToStatus (final (discardChanges pendingStore)) 4 = skToStatus pendingStore 4"
    using eff mem(9,10,11) by blast
  ultimately show ?thesis
    using r j st dat by (simp add: bits)
qed

section \<open>One core-state bit\<close>

text \<open>
  Every call keeps \<open>coreInv\<close>, and \<open>coreInv\<close> gives every key a status with exactly one
  core-state bit.  The one place that reads the status table raw and writes back what
  it read, the loop of \<open>commitChanges\<close> over the changed keys, is why the invariant
  speaks of the journal of changes: a key without a status (0 when read raw) would
  be written as COMMITTING alone, but such a key has no type, and the loop throws on
  the type before it writes.
\<close>

subsection \<open>Status masks\<close>

lemma oneCore_consts [simp]:
  "oneCore EMPTY" "oneCore READY" "oneCore DESTROYED" "oneCore NON_EXISTENT"
  by (simp_all add: oneCore_def status_bits)

lemma modifier_consts [simp]:
  "modifier LOADING" "modifier COMMITTING" "modifier NEW" "modifier DIRTY" "modifier OBSOLETE"
  by (simp_all add: modifier_def status_bits)

lemma modifier_or [simp]: "modifier a \<Longrightarrow> modifier b \<Longrightarrow> modifier (a OR b)"
  by (simp add: modifier_def word_ao_dist)

lemma modifier_and [simp]: "modifier b \<Longrightarrow> modifier (a AND b)"
  by (simp add: modifier_def and.assoc)

lemma oneCore_or [simp]: "modifier m \<Longrightarrow> oneCore (st OR m) = oneCore st"
  by (simp add: oneCore_def modifier_def word_ao_dist)

lemma oneCore_and_not [simp]: "modifier m \<Longrightarrow> oneCore (st AND NOT m) = oneCore st"
proof -
  assume "modifier m"
  then have "NOT m AND 15 = 15"
    unfolding modifier_def by (auto simp: bit_eq_iff bit_simps)
  then show ?thesis by (simp add: oneCore_def and.assoc)
qed

subsection \<open>The invariant and the status table\<close>

lemma coreInv_getStatus: "coreInv s \<Longrightarrow> oneCore (getStatus s sk)"
  by (auto simp: coreInv_def getStatus_def split: option.splits)

lemma coreInv_setStatus: "coreInv s \<Longrightarrow> oneCore st \<Longrightarrow> coreInv (setStatus sk st s)"
  by (auto simp: coreInv_def setStatus_def Let_def wrappers)

lemma coreInv_frame [simp]:
  "coreInv (s\<lparr>autoCommit := x0\<rparr>) = coreInv s"
  "coreInv (s\<lparr>rebaseConflicts := x1\<rparr>) = coreInv s"
  "coreInv (s\<lparr>skToRecord := x2\<rparr>) = coreInv s"
  "coreInv (s\<lparr>recordHasObservers := x3\<rparr>) = coreInv s"
  "coreInv (s\<lparr>skToData := x4\<rparr>) = coreInv s"
  "coreInv (s\<lparr>typeToSkToId := x6\<rparr>) = coreInv s"
  "coreInv (s\<lparr>typeToIdToSk := x7\<rparr>) = coreInv s"
  "coreInv (s\<lparr>skToCommitted := x9\<rparr>) = coreInv s"
  "coreInv (s\<lparr>skToRollback := x10\<rparr>) = coreInv s"
  "coreInv (s\<lparr>skToLastAccess := x11\<rparr>) = coreInv s"
  "coreInv (s\<lparr>created := x12\<rparr>) = coreInv s"
  "coreInv (s\<lparr>destroyed := x13\<rparr>) = coreInv s"
  "coreInv (s\<lparr>liveQueries := x14\<rparr>) = coreInv s"
  "coreInv (s\<lparr>queryTypesNeedRefresh := x15\<rparr>) = coreInv s"
  "coreInv (s\<lparr>nestedStores := x16\<rparr>) = coreInv s"
  "coreInv (s\<lparr>nestedMayUnload := x17\<rparr>) = coreInv s"
  "coreInv (s\<lparr>events := x19\<rparr>) = coreInv s"
  by (simp_all add: coreInv_def)

lemma coreInv_wrappers [simp]:
  "coreInv (emit es s) = coreInv s"
  "coreInv (queueCommitChanges s) = coreInv s"
  "coreInv (recordSetWasModified T s) = coreInv s"
  "coreInv (notifyRecordOfChanges sk ks s) = coreInv s"
  "coreInv (materialiseRecord sk s) = coreInv s"
  by (simp_all add: wrappers materialiseRecord_def)

lemma coreInv_init: "coreInv init"
  by (simp add: coreInv_def init_def)

lemma coreInv_set:
  assumes "coreInv s"
  shows "coreInv (setDirty sk s)" "coreInv (setLoading sk s)"
    "coreInv (setCommitting sk s)" "coreInv (setObsolete sk s)"
  using assms
  by (simp_all add: setDirty_def setLoading_def setCommitting_def setObsolete_def
        coreInv_setStatus coreInv_getStatus)

subsection \<open>The journal of changes\<close>

lemma keys_update: "fst ` set (AList.update k v al) = insert k (fst ` set al)"
  by (induction al) auto

lemma keys_delete: "fst ` set (AList.delete k al) = fst ` set al - {k}"
  by (induction al) auto

lemma coreInv_changed_subset:
  assumes "coreInv s" "fst ` set c \<subseteq> fst ` set (skToChanged s)"
  shows "coreInv (s\<lparr>skToChanged := c\<rparr>)"
proof -
  have "skToStatus s sk = None \<longrightarrow> skToType s sk = None \<and> sk < nextKey s"
    if "sk \<in> fst ` set c" for sk
  proof -
    from that assms(2) have "sk \<in> fst ` set (skToChanged s)" by (rule subsetD [rotated])
    with assms(1) show ?thesis unfolding coreInv_def by (elim conjE) (erule (1) bspec)
  qed
  with assms(1) show ?thesis unfolding coreInv_def by simp
qed

lemma coreInvI:
  assumes "\<And>sk st. skToStatus s sk = Some st \<Longrightarrow> oneCore st"
    and "\<And>sk T. skToType s sk = Some T \<Longrightarrow> sk < nextKey s"
    and "\<And>sk. sk \<in> fst ` set (skToChanged s) \<Longrightarrow> skToStatus s sk = None \<Longrightarrow>
           skToType s sk = None \<and> sk < nextKey s"
  shows "coreInv s"
  unfolding coreInv_def by (intro conjI allI impI ballI) (simp_all add: assms)

lemma coreInv_status: "coreInv s \<Longrightarrow> skToStatus s sk = Some st \<Longrightarrow> oneCore st"
  unfolding coreInv_def by simp

lemma coreInv_type: "coreInv s \<Longrightarrow> skToType s sk = Some T \<Longrightarrow> sk < nextKey s"
  unfolding coreInv_def by simp

lemma coreInv_changed:
  "coreInv s \<Longrightarrow> sk \<in> fst ` set (skToChanged s) \<Longrightarrow> skToStatus s sk = None \<Longrightarrow>
   skToType s sk = None \<and> sk < nextKey s"
  unfolding coreInv_def by (elim conjE, drule (1) bspec, simp)

lemma coreInv_changed_update:
  assumes "coreInv s" "skToStatus s sk \<noteq> None"
  shows "coreInv (s\<lparr>skToChanged := AList.update sk v (skToChanged s)\<rparr>)"
proof (rule coreInvI)
  fix k st assume "skToStatus (s\<lparr>skToChanged := AList.update sk v (skToChanged s)\<rparr>) k = Some st"
  with assms(1) show "oneCore st" by (simp add: coreInv_status)
next
  fix k T assume "skToType (s\<lparr>skToChanged := AList.update sk v (skToChanged s)\<rparr>) k = Some T"
  with assms(1) show "k < nextKey (s\<lparr>skToChanged := AList.update sk v (skToChanged s)\<rparr>)"
    by (simp add: coreInv_type)
next
  fix k
  assume "k \<in> fst ` set (skToChanged (s\<lparr>skToChanged := AList.update sk v (skToChanged s)\<rparr>))"
    and n: "skToStatus (s\<lparr>skToChanged := AList.update sk v (skToChanged s)\<rparr>) k = None"
  with assms(2) have "k \<in> fst ` set (skToChanged s)" "skToStatus s k = None"
    by (auto simp: keys_update)
  with assms(1) show "skToType (s\<lparr>skToChanged := AList.update sk v (skToChanged s)\<rparr>) k = None \<and>
     k < nextKey (s\<lparr>skToChanged := AList.update sk v (skToChanged s)\<rparr>)"
    using coreInv_changed by simp
qed

lemma ready_stored: "getStatus s sk AND READY \<noteq> 0 \<Longrightarrow> skToStatus s sk \<noteq> None"
  by (auto simp: getStatus_def status_bits split: option.splits)

lemma coreInv_narrow [simp]:
  "coreInv s \<Longrightarrow> fst ` set c \<subseteq> fst ` set (skToChanged s) \<Longrightarrow> coreInv (s\<lparr>skToChanged := c\<rparr>)"
  by (rule coreInv_changed_subset)

lemma coreInv_add [simp]:
  assumes "coreInv s" "skToStatus s sk \<noteq> None" "fst ` set c \<subseteq> fst ` set (skToChanged s)"
  shows "coreInv (s\<lparr>skToChanged := AList.update sk v c\<rparr>)"
proof -
  have "coreInv (s\<lparr>skToChanged := c\<rparr>)" using assms(1,3) by simp
  then have "coreInv (s\<lparr>skToChanged := c\<rparr>\<lparr>skToChanged := AList.update sk v (skToChanged (s\<lparr>skToChanged := c\<rparr>))\<rparr>)"
    by (rule coreInv_changed_update) (simp add: assms(2))
  then show ?thesis by simp
qed

lemmas coreInv_simps =
  coreInv_set coreInv_setStatus coreInv_getStatus keys_delete keys_update ready_stored

lemma coreInv_updateHash: "coreInv s \<Longrightarrow> coreInv (snd (updateHash sk data d s))"
  unfolding updateHash_def Let_def
  by (simp add: coreInv_simps split: prod.splits)

subsection \<open>Keys, unloading, creating and destroying\<close>

lemma coreInv_setHash: "coreInv s \<Longrightarrow> coreInv (snd (setHash sk data d s))"
  by (simp add: setHash_def coreInv_updateHash)

lemma coreInv_revertHash: "coreInv s \<Longrightarrow> coreInv (revertHash sk s)"
  by (simp add: revertHash_def coreInv_updateHash split: option.splits)

lemma andThen_final:
  assumes "P (final r)" "\<And>a s'. P s' \<Longrightarrow> P (final (f a s'))"
  shows "P (final (andThen r f))"
  using assms by (cases r) (simp_all add: andThen_def)

lemma coreInv_getStoreKey: "coreInv s \<Longrightarrow> coreInv (snd (getStoreKey T ident s))"
proof -
  assume inv: "coreInv s"
  have fresh: "coreInv (s\<lparr>nextKey := Suc (nextKey s), skToType := (skToType s)(nextKey s \<mapsto> T)\<rparr>)"
  proof (rule coreInvI)
    fix sk st
    assume "skToStatus (s\<lparr>nextKey := Suc (nextKey s), skToType := (skToType s)(nextKey s \<mapsto> T)\<rparr>) sk = Some st"
    with inv show "oneCore st" by (simp add: coreInv_status)
  next
    fix sk T'
    assume "skToType (s\<lparr>nextKey := Suc (nextKey s), skToType := (skToType s)(nextKey s \<mapsto> T)\<rparr>) sk = Some T'"
    then have "sk = nextKey s \<or> skToType s sk = Some T'" by (simp split: if_splits)
    with inv show "sk < nextKey (s\<lparr>nextKey := Suc (nextKey s), skToType := (skToType s)(nextKey s \<mapsto> T)\<rparr>)"
      by (auto dest: coreInv_type)
  next
    fix sk
    assume "sk \<in> fst ` set (skToChanged (s\<lparr>nextKey := Suc (nextKey s), skToType := (skToType s)(nextKey s \<mapsto> T)\<rparr>))"
      and "skToStatus (s\<lparr>nextKey := Suc (nextKey s), skToType := (skToType s)(nextKey s \<mapsto> T)\<rparr>) sk = None"
    then have "sk \<in> fst ` set (skToChanged s)" "skToStatus s sk = None" by simp_all
    with inv have "skToType s sk = None \<and> sk < nextKey s" by (rule coreInv_changed)
    then show "skToType (s\<lparr>nextKey := Suc (nextKey s), skToType := (skToType s)(nextKey s \<mapsto> T)\<rparr>) sk = None \<and>
      sk < nextKey (s\<lparr>nextKey := Suc (nextKey s), skToType := (skToType s)(nextKey s \<mapsto> T)\<rparr>)"
      by auto
  qed
  have eq: "s\<lparr>typeToIdToSk := x, nextKey := n, skToType := t, typeToSkToId := y\<rparr> =
            s\<lparr>nextKey := n, skToType := t\<rparr>\<lparr>typeToIdToSk := x, typeToSkToId := y\<rparr>" for x n t y
    by simp
  show ?thesis
    unfolding getStoreKey_def Let_def using inv fresh by (simp add: eq)
qed

lemma coreInv_unloadRecord: "coreInv s \<Longrightarrow> coreInv (final (unloadRecord sk s))"
proof -
  assume inv: "coreInv s"
  have gone: "coreInv (s\<lparr>skToStatus := (skToStatus s)(sk := None), skToType := (skToType s)(sk := None)\<rparr>)"
    if "skToType s sk = Some T" for T
  proof (rule coreInvI)
    fix k st
    assume "skToStatus (s\<lparr>skToStatus := (skToStatus s)(sk := None), skToType := (skToType s)(sk := None)\<rparr>) k = Some st"
    with inv show "oneCore st" by (simp add: coreInv_status split: if_splits)
  next
    fix k T'
    assume "skToType (s\<lparr>skToStatus := (skToStatus s)(sk := None), skToType := (skToType s)(sk := None)\<rparr>) k = Some T'"
    with inv show "k < nextKey (s\<lparr>skToStatus := (skToStatus s)(sk := None), skToType := (skToType s)(sk := None)\<rparr>)"
      by (simp add: coreInv_type split: if_splits)
  next
    fix k
    assume k: "k \<in> fst ` set (skToChanged (s\<lparr>skToStatus := (skToStatus s)(sk := None), skToType := (skToType s)(sk := None)\<rparr>))"
      and n: "skToStatus (s\<lparr>skToStatus := (skToStatus s)(sk := None), skToType := (skToType s)(sk := None)\<rparr>) k = None"
    show "skToType (s\<lparr>skToStatus := (skToStatus s)(sk := None), skToType := (skToType s)(sk := None)\<rparr>) k = None \<and>
      k < nextKey (s\<lparr>skToStatus := (skToStatus s)(sk := None), skToType := (skToType s)(sk := None)\<rparr>)"
    proof (cases "k = sk")
      case True
      with inv that show ?thesis by (simp add: coreInv_type)
    next
      case False
      with k n have "k \<in> fst ` set (skToChanged s)" "skToStatus s k = None" by simp_all
      with inv have "skToType s k = None \<and> k < nextKey s" by (rule coreInv_changed)
      with False show ?thesis by simp
    qed
  qed
  have eq: "s\<lparr>skToRecord := a, skToData := b, skToStatus := c, skToType := d, typeToSkToId := e\<rparr> =
            s\<lparr>skToStatus := c, skToType := d\<rparr>\<lparr>skToRecord := a, skToData := b, typeToSkToId := e\<rparr>"
    for a b c d e by simp
  show ?thesis
    unfolding unloadRecord_def Let_def using inv gone
    by (simp add: eq split: option.splits)
qed

lemma coreInv_createRecord: "coreInv s \<Longrightarrow> coreInv (snd (createRecord sk data s))"
proof -
  assume inv: "coreInv s"
  have new: "coreInv (s\<lparr>skToStatus := (skToStatus s)(sk \<mapsto> READY OR NEW)\<rparr>)"
    using inv by (auto simp: coreInv_def)
  have eq: "s\<lparr>skToData := a, skToStatus := b\<rparr> = s\<lparr>skToStatus := b\<rparr>\<lparr>skToData := a\<rparr>" for a b
    by simp
  show ?thesis
    unfolding createRecord_def Let_def using inv new by (simp add: eq)
qed

lemma coreInv_setIdForStoreKey: "coreInv s \<Longrightarrow> coreInv (final (setIdForStoreKey sk ident s))"
  unfolding setIdForStoreKey_def Let_def
  by (simp add: coreInv_updateHash split: option.splits)

lemma coreInv_destroyRecord: "coreInv s \<Longrightarrow> coreInv (final (destroyRecord sk s))"
  unfolding destroyRecord_def Let_def
  by (auto intro!: andThen_final [where P = coreInv] coreInv_unloadRecord coreInv_setStatus
       simp: coreInv_simps coreInv_setHash)

lemma coreInv_fetchHash: "coreInv s \<Longrightarrow> coreInv (final (fetchHash sk s))"
  unfolding fetchHash_def Let_def
  by (simp add: coreInv_simps split: option.splits)

subsection \<open>Committing\<close>

lemma foldE_outcome_induct:
  assumes "Q acc s"
    and "\<And>x acc s'. x \<in> set xs \<Longrightarrow> Q acc s' \<Longrightarrow>
           (case f x acc s' of Returned acc' s'' \<Rightarrow> Q acc' s'' | Thrown s'' \<Rightarrow> R s'')"
  shows "case foldE f xs acc s of Returned acc' s' \<Rightarrow> Q acc' s' | Thrown s' \<Rightarrow> R s'"
  using assms
proof (induction xs arbitrary: acc s)
  case Nil
  then show ?case by simp
next
  case (Cons x xs)
  from Cons.prems have step: "case f x acc s of Returned acc' s'' \<Rightarrow> Q acc' s'' | Thrown s'' \<Rightarrow> R s''"
    by simp
  show ?case
  proof (cases "f x acc s")
    case (Returned acc' s')
    with step have "Q acc' s'" by simp
    then have "case foldE f xs acc' s' of Returned a t \<Rightarrow> Q a t | Thrown t \<Rightarrow> R t"
      by (rule Cons.IH) (simp add: Cons.prems(2))
    with Returned show ?thesis by simp
  next
    case (Thrown s')
    with step show ?thesis by simp
  qed
qed

lemma raw_oneCore:
  assumes "coreInv s" "sk \<in> fst ` set (skToChanged s)" "skToType s sk = Some T"
  shows "oneCore (rawStatus s sk)"
proof (cases "skToStatus s sk")
  case None
  with assms(1,2) have "skToType s sk = None" by (simp add: coreInv_changed)
  with assms(3) show ?thesis by simp
next
  case (Some st)
  with assms(1) show ?thesis by (simp add: rawStatus_def coreInv_status)
qed

lemma coreInv_commitCreated: "coreInv s \<Longrightarrow> coreInv (final (commitCreated sk changes s))"
  unfolding commitCreated_def Let_def by (simp add: coreInv_simps split: option.splits)

lemma changed_setStatus [simp]: "skToChanged (setStatus sk st s) = skToChanged s"
  by (simp add: setStatus_def Let_def wrappers)

lemma changed_set [simp]:
  "skToChanged (setDirty sk s) = skToChanged s"
  "skToChanged (setLoading sk s) = skToChanged s"
  "skToChanged (setCommitting sk s) = skToChanged s"
  "skToChanged (setObsolete sk s) = skToChanged s"
  by (simp_all add: setDirty_def setLoading_def setCommitting_def setObsolete_def)

lemma changed_commitCreated: "skToChanged (final (commitCreated sk changes s)) = skToChanged s"
  unfolding commitCreated_def Let_def by (simp split: option.splits)

lemma changed_commitDestroyed: "skToChanged (final (commitDestroyed sk acc s)) = skToChanged s"
  unfolding commitDestroyed_def Let_def by (simp split: option.splits)

lemma coreInv_commitDestroyed: "coreInv s \<Longrightarrow> coreInv (final (commitDestroyed sk acc s))"
  unfolding commitDestroyed_def Let_def by (simp add: coreInv_simps split: option.splits)

lemma commitChanged_step:
  assumes "coreInv s" "fst p \<in> fst ` set (skToChanged s)" "fst ` set (snd acc) \<subseteq> fst ` set (skToChanged s)"
  shows "case commitChanged p acc s of
           Returned acc' s' \<Rightarrow> coreInv s' \<and> skToChanged s' = skToChanged s \<and>
                                fst ` set (snd acc') \<subseteq> fst ` set (skToChanged s)
         | Thrown s' \<Rightarrow> coreInv s'"
proof (cases "skToType s (fst p)")
  case None
  with assms(1) show ?thesis by (simp add: commitChanged_def Let_def)
next
  case (Some T)
  with assms(1,2) have "oneCore (rawStatus s (fst p))" by (rule_tac raw_oneCore)
  with assms Some show ?thesis
    by (simp add: commitChanged_def Let_def coreInv_simps)
qed

lemma coreInv_commitChanges: "coreInv s \<Longrightarrow> coreInv (final (commitChanges s))"
proof -
  assume inv: "coreInv s"
  define K where "K = fst ` set (skToChanged s)"
  have 1: "case foldE commitCreated (created s) [] s of
             Returned a t \<Rightarrow> coreInv t \<and> skToChanged t = skToChanged s
           | Thrown t \<Rightarrow> coreInv t"
  proof (rule foldE_outcome_induct [where Q = "\<lambda>a t. coreInv t \<and> skToChanged t = skToChanged s"])
    show "coreInv s \<and> skToChanged s = skToChanged s" using inv by simp
  next
    fix x :: storeKey and acc :: "(string \<times> changeset) list" and s' :: store
    assume "coreInv s' \<and> skToChanged s' = skToChanged s"
    then have "coreInv (final (commitCreated x acc s'))"
      "skToChanged (final (commitCreated x acc s')) = skToChanged s"
      by (simp_all add: coreInv_commitCreated changed_commitCreated)
    then show "case commitCreated x acc s' of
        Returned a t \<Rightarrow> coreInv t \<and> skToChanged t = skToChanged s | Thrown t \<Rightarrow> coreInv t"
      by (cases "commitCreated x acc s'") simp_all
  qed
  have 2: "case foldE commitChanged (skToChanged s) (changes1, []) s1 of
             Returned a t \<Rightarrow> coreInv t \<and> skToChanged t = skToChanged s \<and>
                             fst ` set (snd a) \<subseteq> fst ` set (skToChanged s)
           | Thrown t \<Rightarrow> coreInv t"
    if "coreInv s1" "skToChanged s1 = skToChanged s" for changes1 s1
  proof (rule foldE_outcome_induct
      [where Q = "\<lambda>a t. coreInv t \<and> skToChanged t = skToChanged s \<and>
                        fst ` set (snd a) \<subseteq> fst ` set (skToChanged s)"])
    show "coreInv s1 \<and> skToChanged s1 = skToChanged s \<and>
          fst ` set (snd (changes1, [])) \<subseteq> fst ` set (skToChanged s)"
      using that by simp
  next
    fix x :: "storeKey \<times> changedMap"
      and acc :: "(string \<times> changeset) list \<times> (storeKey \<times> changedMap) list" and s' :: store
    assume x: "x \<in> set (skToChanged s)"
      and q: "coreInv s' \<and> skToChanged s' = skToChanged s \<and>
              fst ` set (snd acc) \<subseteq> fst ` set (skToChanged s)"
    from x q have "fst x \<in> fst ` set (skToChanged s')" by simp
    with q have st: "case commitChanged x acc s' of
           Returned acc' t \<Rightarrow> coreInv t \<and> skToChanged t = skToChanged s' \<and>
                                fst ` set (snd acc') \<subseteq> fst ` set (skToChanged s')
         | Thrown t \<Rightarrow> coreInv t"
      by (intro commitChanged_step) simp_all
    show "case commitChanged x acc s' of
        Returned a t \<Rightarrow> coreInv t \<and> skToChanged t = skToChanged s \<and>
                        fst ` set (snd a) \<subseteq> fst ` set (skToChanged s)
      | Thrown t \<Rightarrow> coreInv t"
      using st q by (cases "commitChanged x acc s'") simp_all
  qed
  have 3: "case foldE commitDestroyed (destroyed s) (changes2, []) s2 of
             Returned a t \<Rightarrow> coreInv t \<and> skToChanged t = skToChanged s
           | Thrown t \<Rightarrow> coreInv t"
    if "coreInv s2" "skToChanged s2 = skToChanged s" for changes2 s2
  proof (rule foldE_outcome_induct [where Q = "\<lambda>a t. coreInv t \<and> skToChanged t = skToChanged s"])
    show "coreInv s2 \<and> skToChanged s2 = skToChanged s" using that by simp
  next
    fix x :: storeKey and acc :: "(string \<times> changeset) list \<times> storeKey list" and s' :: store
    assume "coreInv s' \<and> skToChanged s' = skToChanged s"
    then have "coreInv (final (commitDestroyed x acc s'))"
      "skToChanged (final (commitDestroyed x acc s')) = skToChanged s"
      by (simp_all add: coreInv_commitDestroyed changed_commitDestroyed)
    then show "case commitDestroyed x acc s' of
        Returned a t \<Rightarrow> coreInv t \<and> skToChanged t = skToChanged s | Thrown t \<Rightarrow> coreInv t"
      by (cases "commitDestroyed x acc s'") simp_all
  qed
  show ?thesis
  proof (cases "foldE commitCreated (created s) [] s")
    case (Thrown t)
    with 1 show ?thesis by (simp add: commitChanges_def andThen_def)
  next
    case r1: (Returned changes1 s1)
    with 1 have s1: "coreInv s1" "skToChanged s1 = skToChanged s" by simp_all
    show ?thesis
    proof (cases "foldE commitChanged (skToChanged s) (changes1, []) s1")
      case (Thrown t)
      with 2 [OF s1, of changes1] r1 show ?thesis by (simp add: commitChanges_def andThen_def)
    next
      case r2: (Returned acc2 s2)
      obtain c2 n2 where a2: "acc2 = (c2, n2)" by (cases acc2)
      from 2 [OF s1, of changes1] r2 have s2: "coreInv s2" "skToChanged s2 = skToChanged s"
        and sub: "fst ` set n2 \<subseteq> fst ` set (skToChanged s)" by (simp_all add: a2)
      show ?thesis
      proof (cases "foldE commitDestroyed (destroyed s) (c2, []) s2")
        case (Thrown t)
        with 3 [OF s2, of c2] r1 r2 show ?thesis
          by (simp add: commitChanges_def andThen_def a2)
      next
        case r3: (Returned acc3 s3)
        obtain c3 n3 where a3: "acc3 = (c3, n3)" by (cases acc3)
        from 3 [OF s2, of c2] r3 have "coreInv s3" "skToChanged s3 = skToChanged s" by simp_all
        with sub r1 r2 r3 show ?thesis
          by (simp add: commitChanges_def andThen_def a2 a3)
      qed
    qed
  qed
qed

subsection \<open>Discarding\<close>

lemmas coreInv_steps =
  andThen_final [where P = coreInv] forEach_final_induct [where P = coreInv]
  foldE_final_induct [where P = coreInv]

lemma coreInv_discardCreated: "coreInv s \<Longrightarrow> coreInv (final (discardCreated sk s))"
  unfolding discardCreated_def
  by (intro coreInv_steps coreInv_unloadRecord coreInv_setStatus) simp_all

lemma coreInv_discardChanged: "coreInv s \<Longrightarrow> coreInv (final (discardChanged sk s))"
  unfolding discardChanged_def Let_def
  by (simp add: coreInv_simps coreInv_setHash)

lemma coreInv_discardDestroyed: "coreInv s \<Longrightarrow> coreInv (final (discardDestroyed sk s))"
  unfolding discardDestroyed_def by (simp add: coreInv_simps)

lemma coreInv_discardChanges: "coreInv s \<Longrightarrow> coreInv (final (discardChanges s))"
  unfolding discardChanges_def
  by (intro coreInv_steps coreInv_discardCreated coreInv_discardChanged coreInv_discardDestroyed)
     simp_all

subsection \<open>Source callbacks\<close>

lemma raw_ready_stored: "rawStatus s sk AND READY \<noteq> 0 \<Longrightarrow> skToStatus s sk \<noteq> None"
  by (auto simp: rawStatus_def split: option.splits)

lemma coreInv_fetchUpdate:
  assumes inv: "coreInv s"
  shows "coreInv (final (fetchUpdate T p s))"
proof (cases "typeToIdToSk s (className T)")
  case None
  with inv show ?thesis by (simp add: fetchUpdate_def)
next
  case idx: (Some idToSk)
  show ?thesis
  proof (cases "map_of idToSk (fst p)")
    case None
    with idx inv show ?thesis by (simp add: fetchUpdate_def)
  next
    case key: (Some sk)
    show ?thesis
    proof (cases "rawStatus s sk AND READY = 0")
      case True
      with idx key inv show ?thesis by (simp add: fetchUpdate_def Let_def)
    next
      case ready: False
      then have stored: "skToStatus s sk \<noteq> None" by (simp add: raw_ready_stored)
      show ?thesis
      proof (cases "rawStatus s sk AND COMMITTING = 0")
        case True
        with idx key inv ready stored show ?thesis
          by (simp add: fetchUpdate_def Let_def coreInv_simps coreInv_setHash coreInv_updateHash
                setHash_def split: option.splits prod.splits)
      next
        case committing: False
        show ?thesis
        proof (cases "extendOpt (skToRollback s sk) (Some (snd p))")
          case None
          with idx key inv ready committing show ?thesis by (simp add: fetchUpdate_def Let_def)
        next
          case (Some update1)
          with idx key inv ready committing stored show ?thesis
            by (simp add: fetchUpdate_def Let_def coreInv_simps coreInv_setHash coreInv_updateHash
                  setHash_def split: option.splits prod.splits)
        qed
      qed
    qed
  qed
qed

lemma coreInv_sourceDidFetchUpdates:
  "coreInv s \<Longrightarrow> coreInv (final (sourceDidFetchUpdates T updates s))"
  unfolding sourceDidFetchUpdates_def
  by (intro coreInv_steps coreInv_fetchUpdate) simp_all

lemma coreInv_getStoreKey_pair:
  "getStoreKey T ident s = (sk, s1) \<Longrightarrow> coreInv s \<Longrightarrow> coreInv s1"
  using coreInv_getStoreKey [of s T ident] by simp

lemma coreInv_dropDirty: "coreInv s \<Longrightarrow> coreInv (dropDirty sk status s)"
  unfolding dropDirty_def Let_def by (simp add: coreInv_setHash keys_delete)

lemma coreInv_destroyOne: "coreInv s \<Longrightarrow> coreInv (final (destroyOne T ident s))"
  unfolding destroyOne_def Let_def
  by (cases "getStoreKey T ident s")
     (auto intro!: coreInv_steps coreInv_unloadRecord coreInv_setStatus coreInv_dropDirty
        dest: coreInv_getStoreKey_pair)

lemma coreInv_sourceDidDestroyRecords:
  "coreInv s \<Longrightarrow> coreInv (final (sourceDidDestroyRecords T idList s))"
  unfolding sourceDidDestroyRecords_def
  by (intro coreInv_steps coreInv_destroyOne) simp_all

lemma coreInv_couldNotFindOne: "coreInv s \<Longrightarrow> coreInv (final (couldNotFindOne T ident s))"
  unfolding couldNotFindOne_def Let_def
  by (cases "getStoreKey T ident s")
     (auto intro!: coreInv_steps coreInv_unloadRecord coreInv_setStatus coreInv_dropDirty
        dest: coreInv_getStoreKey_pair)

lemma coreInv_sourceCouldNotFindRecords:
  "coreInv s \<Longrightarrow> coreInv (final (sourceCouldNotFindRecords T idList s))"
  unfolding sourceCouldNotFindRecords_def
  by (intro coreInv_steps coreInv_couldNotFindOne) simp_all

lemma coreInv_fetchRecord: "coreInv s \<Longrightarrow> coreInv (final (fetchRecord T now data acc s))"
  unfolding fetchRecord_def Let_def
  by (cases "getStoreKey T (getAttr data (primaryKey T)) s")
     (auto intro!: coreInv_setStatus coreInv_setHash dest: coreInv_getStoreKey_pair)

lemma coreInv_sourceDidFetchRecords:
  "coreInv s \<Longrightarrow> coreInv (final (sourceDidFetchRecords T records all now s))"
  unfolding sourceDidFetchRecords_def Let_def
  by (intro coreInv_steps coreInv_fetchRecord)
     (auto intro!: coreInv_steps coreInv_sourceDidDestroyRecords coreInv_sourceDidFetchUpdates)

lemma coreInv_sourceDidFetchAllRecords:
  "coreInv s \<Longrightarrow> coreInv (final (sourceDidFetchAllRecords T records now s))"
  by (simp add: sourceDidFetchAllRecords_def coreInv_sourceDidFetchRecords)

lemma coreInv_hasUpdatesOne: "coreInv s \<Longrightarrow> coreInv (final (hasUpdatesOne T ident s))"
  unfolding hasUpdatesOne_def Let_def by (simp add: coreInv_simps split: option.splits)

lemma coreInv_sourceHasUpdatesForRecords:
  "coreInv s \<Longrightarrow> coreInv (final (sourceHasUpdatesForRecords T idList s))"
  unfolding sourceHasUpdatesForRecords_def
  by (intro coreInv_steps coreInv_hasUpdatesOne) simp_all

lemma oneCore_and_not2:
  "modifier a \<Longrightarrow> modifier b \<Longrightarrow> oneCore (st AND NOT a AND NOT b) = oneCore st"
  using oneCore_and_not [of "a OR b" st] by simp

lemma coreInv_commitCreateOne: "coreInv s \<Longrightarrow> coreInv (final (commitCreateOne p s))"
  unfolding commitCreateOne_def Let_def
  by (auto intro!: coreInv_steps coreInv_setIdForStoreKey coreInv_setStatus
        simp: coreInv_getStatus oneCore_and_not2)

lemma coreInv_sourceDidCommitCreate:
  "coreInv s \<Longrightarrow> coreInv (final (sourceDidCommitCreate skToId s))"
  unfolding sourceDidCommitCreate_def by (intro coreInv_steps coreInv_commitCreateOne) simp_all

lemma coreInv_notCreateOne: "coreInv s \<Longrightarrow> coreInv (final (notCreateOne sk s))"
  unfolding notCreateOne_def Let_def
  by (auto intro!: coreInv_steps coreInv_unloadRecord coreInv_setStatus simp: keys_delete)

lemma coreInv_sourceDidNotCreate:
  "coreInv s \<Longrightarrow> coreInv (final (sourceDidNotCreate storeKeys s))"
  unfolding sourceDidNotCreate_def by (intro coreInv_steps coreInv_notCreateOne) simp_all

lemma coreInv_commitUpdateOne: "coreInv s \<Longrightarrow> coreInv (final (commitUpdateOne sk s))"
  unfolding commitUpdateOne_def Let_def by (simp add: coreInv_simps)

lemma coreInv_sourceDidCommitUpdate:
  "coreInv s \<Longrightarrow> coreInv (final (sourceDidCommitUpdate storeKeys s))"
  unfolding sourceDidCommitUpdate_def by (intro coreInv_steps coreInv_commitUpdateOne) simp_all

lemma coreInv_notUpdateOne: "coreInv s \<Longrightarrow> coreInv (final (notUpdateOne sk s))"
  unfolding notUpdateOne_def Let_def by (simp add: coreInv_simps)

lemma coreInv_sourceDidNotUpdate:
  "coreInv s \<Longrightarrow> coreInv (final (sourceDidNotUpdate storeKeys s))"
  unfolding sourceDidNotUpdate_def by (intro coreInv_steps coreInv_notUpdateOne) simp_all

lemma coreInv_commitDestroyOne: "coreInv s \<Longrightarrow> coreInv (final (commitDestroyOne sk s))"
  unfolding commitDestroyOne_def Let_def
  by (intro coreInv_steps coreInv_unloadRecord coreInv_setStatus) simp_all

lemma coreInv_sourceDidCommitDestroy:
  "coreInv s \<Longrightarrow> coreInv (final (sourceDidCommitDestroy storeKeys s))"
  unfolding sourceDidCommitDestroy_def by (intro coreInv_steps coreInv_commitDestroyOne) simp_all

lemma coreInv_notDestroyOne: "coreInv s \<Longrightarrow> coreInv (final (notDestroyOne sk s))"
  unfolding notDestroyOne_def Let_def by (simp add: coreInv_simps)

lemma coreInv_sourceDidNotDestroy:
  "coreInv s \<Longrightarrow> coreInv (final (sourceDidNotDestroy storeKeys s))"
  unfolding sourceDidNotDestroy_def by (intro coreInv_steps coreInv_notDestroyOne) simp_all

lemma coreInv_errorOne: "coreInv s \<Longrightarrow> coreInv (final (errorOne sk s))"
  unfolding errorOne_def Let_def
  by (auto intro!: coreInv_steps coreInv_unloadRecord coreInv_setStatus
        simp: keys_delete coreInv_setHash)

lemma coreInv_sourceDidError: "coreInv s \<Longrightarrow> coreInv (final (sourceDidError storeKeys s))"
  unfolding sourceDidError_def by (intro coreInv_steps coreInv_errorOne) simp_all

subsection \<open>Client API\<close>

lemma coreInv_newRecord: "coreInv s \<Longrightarrow> coreInv (snd (newRecord T data s))"
  unfolding newRecord_def Let_def
  by (cases "getStoreKey T (getAttr data (primaryKey T)) s")
     (auto intro!: coreInv_createRecord dest: coreInv_getStoreKey_pair)

lemma coreInv_getRecord:
  assumes inv: "coreInv s"
  shows "coreInv (final (getRecord T ref doNotFetch now s))"
proof (cases ref)
  case (ById i)
  obtain sk s1 where g: "getStoreKey T (JStr i) s = (sk, s1)"
    by (cases "getStoreKey T (JStr i) s")
  from g inv have "coreInv s1" by (rule coreInv_getStoreKey_pair)
  with ById g show ?thesis
    by (auto simp: getRecord_def Let_def intro!: coreInv_steps coreInv_fetchHash)
next
  case (ByKey k)
  with inv show ?thesis
    by (auto simp: getRecord_def Let_def intro!: coreInv_steps coreInv_fetchHash)
qed

lemma coreInv_fold_materialise: "coreInv s \<Longrightarrow> coreInv (fold materialiseRecord ks s)"
  by (induction ks arbitrary: s) simp_all

lemma coreInv_getAllLoadedRecords: "coreInv s \<Longrightarrow> coreInv (snd (getAllLoadedRecords T s))"
  unfolding getAllLoadedRecords_def Let_def by (simp add: coreInv_fold_materialise)

lemma coreInv_nested: "coreInv (addNested n s) = coreInv s" "coreInv (removeNested n s) = coreInv s"
  by (simp_all add: addNested_def removeNested_def)

subsection \<open>Every call\<close>

lemma coreInv_perform: "coreInv s \<Longrightarrow> wellFormed c \<Longrightarrow> coreInv (perform c s)"
  by (cases c)
     (simp_all add: coreInv_nested coreInv_getStoreKey coreInv_setIdForStoreKey coreInv_newRecord
        coreInv_getRecord coreInv_commitChanges coreInv_discardChanges coreInv_setStatus
        coreInv_set coreInv_unloadRecord coreInv_createRecord coreInv_destroyRecord
        coreInv_fetchHash coreInv_setHash coreInv_updateHash coreInv_revertHash
        coreInv_sourceDidFetchAllRecords coreInv_sourceDidFetchRecords
        coreInv_sourceHasUpdatesForRecords coreInv_sourceDidFetchUpdates
        coreInv_sourceCouldNotFindRecords coreInv_sourceDidDestroyRecords
        coreInv_sourceDidCommitCreate coreInv_sourceDidNotCreate coreInv_sourceDidCommitUpdate
        coreInv_sourceDidNotUpdate coreInv_sourceDidCommitDestroy coreInv_sourceDidNotDestroy
        coreInv_sourceDidError coreInv_getAllLoadedRecords)

lemma coreInv_fold:
  "coreInv s \<Longrightarrow> list_all wellFormed cs \<Longrightarrow> coreInv (fold perform cs s)"
  by (induction cs arbitrary: s) (simp_all add: coreInv_perform)

text \<open>
  C5 (counterexample).  \<open>setStatus\<close> stores the bits it is given.  Called on
  the empty store with \<open>DIRTY\<close> it leaves key 1 with no core-state bit, and with
  \<open>EMPTY|READY\<close> it leaves it with two.
\<close>

theorem setStatus_core_counterexample:
  "getStatus (runCalls [SetStatus 1 DIRTY]) 1 = DIRTY \<and>
   \<not> oneCore (getStatus (runCalls [SetStatus 1 DIRTY]) 1) \<and>
   getStatus (runCalls [SetStatus 1 (EMPTY OR READY)]) 1 = EMPTY OR READY \<and>
   \<not> oneCore (getStatus (runCalls [SetStatus 1 (EMPTY OR READY)]) 1)"
  by code_simp

text \<open>
  C5 (amended).  After any sequence of calls on the empty store, by the client, the run
  loop and the source, in which \<open>setStatus\<close> is only given a status with exactly one
  core-state bit, the status of every store key has exactly one of the bits EMPTY,
  READY, DESTROYED, NON_EXISTENT.  A call that throws counts with the store as the
  exception leaves it.
\<close>

theorem one_core_state_bit:
  "list_all wellFormed cs \<Longrightarrow> oneCore (getStatus (runCalls cs) sk)"
  unfolding runCalls_def by (rule coreInv_getStatus) (simp add: coreInv_fold coreInv_init)

theorem one_core_state_bit_witness:
  "list_all wellFormed editAndCommit \<and>
   getStatus (runCalls (take 3 editAndCommit)) 1 = READY OR COMMITTING \<and>
   getStatus (runCalls editAndCommit) 1 = READY OR OBSOLETE \<and>
   oneCore (getStatus (runCalls editAndCommit) 1)"
proof -
  have v: "list_all wellFormed editAndCommit" by code_simp
  have st: "getStatus (runCalls (take 3 editAndCommit)) 1 = READY OR COMMITTING"
    "getStatus (runCalls editAndCommit) 1 = READY OR OBSOLETE" by code_simp+
  from one_core_state_bit [OF v] have "oneCore (getStatus (runCalls editAndCommit) 1)" .
  with v st show ?thesis by simp
qed

section \<open>Creating a record, and who is told of a status\<close>

text \<open>
  Three places of the store write the status table: \<open>setStatus\<close>, which tells the record
  object and every nested store, and \<open>createRecord\<close> and \<open>unloadRecord\<close>, which tell
  nobody.  The invariant \<open>heard\<close> is kept by every step of every call.
\<close>

subsection \<open>What a listener was last told\<close>

lemma lastTold_append:
  "lastTold L k (es @ es') =
     (case lastTold L k es' of Some st \<Rightarrow> Some st | None \<Rightarrow> lastTold L k es)"
  by (induction es) (simp_all split: option.splits)

lemma lastTold_silent: "(\<And>e. e \<in> set es \<Longrightarrow> toldStatus L k e = None) \<Longrightarrow> lastTold L k es = None"
  by (induction es) simp_all

lemma heard_start: "listening L k s \<Longrightarrow> heard L k cr un s s"
  by (simp add: heard_def)

lemma heardI:
  assumes "events s = events s0 @ es"
    and "un \<and> L = RecordObject \<and> \<not> skToRecord s k \<or>
         listening L k s \<and>
           (lastTold L k es = None \<and> skToStatus s k = skToStatus s0 k \<or>
            (\<exists>st. lastTold L k es = Some st \<and> skToStatus s k = Some st) \<or>
            cr \<and> skToStatus s k = Some (READY OR NEW) \<or>
            un \<and> skToStatus s k = None)"
  shows "heard L k cr un s0 s"
  unfolding heard_def using assms by blast

lemma heardE:
  assumes "heard L k cr un s0 s"
  obtains es where "events s = events s0 @ es"
    and "un \<and> L = RecordObject \<and> \<not> skToRecord s k \<or>
         listening L k s \<and>
           (lastTold L k es = None \<and> skToStatus s k = skToStatus s0 k \<or>
            (\<exists>st. lastTold L k es = Some st \<and> skToStatus s k = Some st) \<or>
            cr \<and> skToStatus s k = Some (READY OR NEW) \<or>
            un \<and> skToStatus s k = None)"
  using assms unfolding heard_def by blast

lemma listening_cong:
  "(L = RecordObject \<Longrightarrow> skToRecord s' k = skToRecord s k) \<Longrightarrow>
   nestedStores s' = nestedStores s \<Longrightarrow> listening L k s' = listening L k s"
  by (cases L) (simp_all add: listening_def)

text \<open>A step that tells the listener nothing of the key and leaves its status entry.\<close>

lemma heard_silent:
  assumes h: "heard L k cr un s0 s"
    and ev: "events s' = events s @ es'" "\<And>e. e \<in> set es' \<Longrightarrow> toldStatus L k e = None"
    and same: "L = RecordObject \<Longrightarrow> skToRecord s' k = skToRecord s k"
      "nestedStores s' = nestedStores s" "skToStatus s' k = skToStatus s k"
  shows "heard L k cr un s0 s'"
proof -
  from h obtain es where es: "events s = events s0 @ es"
    and c: "un \<and> L = RecordObject \<and> \<not> skToRecord s k \<or>
         listening L k s \<and>
           (lastTold L k es = None \<and> skToStatus s k = skToStatus s0 k \<or>
            (\<exists>st. lastTold L k es = Some st \<and> skToStatus s k = Some st) \<or>
            cr \<and> skToStatus s k = Some (READY OR NEW) \<or>
            un \<and> skToStatus s k = None)"
    by (rule heardE)
  have lt: "lastTold L k (es @ es') = lastTold L k es"
    by (simp add: lastTold_append lastTold_silent [of es' L k, OF ev(2)])
  have li: "listening L k s' = listening L k s"
    using same(1,2) by (rule listening_cong)
  have rec: "(L = RecordObject \<and> \<not> skToRecord s' k) = (L = RecordObject \<and> \<not> skToRecord s k)"
    using same(1) by (cases L) simp_all
  show ?thesis
  proof (rule heardI)
    show "events s' = events s0 @ (es @ es')" by (simp add: ev(1) es)
    show "un \<and> L = RecordObject \<and> \<not> skToRecord s' k \<or>
         listening L k s' \<and>
           (lastTold L k (es @ es') = None \<and> skToStatus s' k = skToStatus s0 k \<or>
            (\<exists>st. lastTold L k (es @ es') = Some st \<and> skToStatus s' k = Some st) \<or>
            cr \<and> skToStatus s' k = Some (READY OR NEW) \<or>
            un \<and> skToStatus s' k = None)"
      using c unfolding lt li rec same(3) by assumption
  qed
qed

lemma heard_emit:
  assumes "heard L k cr un s0 s" "\<And>e. e \<in> set es' \<Longrightarrow> toldStatus L k e = None"
  shows "heard L k cr un s0 (emit es' s)"
  using assms(1) by (rule heard_silent [where es' = es']) (simp_all add: emit_def assms(2))

lemma listening_frame [simp]:
  "listening L k (s\<lparr>autoCommit := x0\<rparr>) = listening L k s"
  "listening L k (s\<lparr>rebaseConflicts := x1\<rparr>) = listening L k s"
  "listening L k (s\<lparr>recordHasObservers := x3\<rparr>) = listening L k s"
  "listening L k (s\<lparr>skToData := x4\<rparr>) = listening L k s"
  "listening L k (s\<lparr>skToType := x5\<rparr>) = listening L k s"
  "listening L k (s\<lparr>typeToSkToId := x6\<rparr>) = listening L k s"
  "listening L k (s\<lparr>typeToIdToSk := x7\<rparr>) = listening L k s"
  "listening L k (s\<lparr>skToChanged := x8\<rparr>) = listening L k s"
  "listening L k (s\<lparr>skToCommitted := x9\<rparr>) = listening L k s"
  "listening L k (s\<lparr>skToRollback := x10\<rparr>) = listening L k s"
  "listening L k (s\<lparr>skToLastAccess := x11\<rparr>) = listening L k s"
  "listening L k (s\<lparr>created := x12\<rparr>) = listening L k s"
  "listening L k (s\<lparr>destroyed := x13\<rparr>) = listening L k s"
  "listening L k (s\<lparr>liveQueries := x14\<rparr>) = listening L k s"
  "listening L k (s\<lparr>queryTypesNeedRefresh := x15\<rparr>) = listening L k s"
  "listening L k (s\<lparr>nestedMayUnload := x17\<rparr>) = listening L k s"
  "listening L k (s\<lparr>nextKey := x18\<rparr>) = listening L k s"
  by (cases L; simp add: listening_def)+

lemma heard_frame [simp]:
  "heard L k cr un s0 (s\<lparr>autoCommit := x0\<rparr>) = heard L k cr un s0 s"
  "heard L k cr un s0 (s\<lparr>rebaseConflicts := x1\<rparr>) = heard L k cr un s0 s"
  "heard L k cr un s0 (s\<lparr>recordHasObservers := x3\<rparr>) = heard L k cr un s0 s"
  "heard L k cr un s0 (s\<lparr>skToData := x4\<rparr>) = heard L k cr un s0 s"
  "heard L k cr un s0 (s\<lparr>skToType := x5\<rparr>) = heard L k cr un s0 s"
  "heard L k cr un s0 (s\<lparr>typeToSkToId := x6\<rparr>) = heard L k cr un s0 s"
  "heard L k cr un s0 (s\<lparr>typeToIdToSk := x7\<rparr>) = heard L k cr un s0 s"
  "heard L k cr un s0 (s\<lparr>skToChanged := x8\<rparr>) = heard L k cr un s0 s"
  "heard L k cr un s0 (s\<lparr>skToCommitted := x9\<rparr>) = heard L k cr un s0 s"
  "heard L k cr un s0 (s\<lparr>skToRollback := x10\<rparr>) = heard L k cr un s0 s"
  "heard L k cr un s0 (s\<lparr>skToLastAccess := x11\<rparr>) = heard L k cr un s0 s"
  "heard L k cr un s0 (s\<lparr>created := x12\<rparr>) = heard L k cr un s0 s"
  "heard L k cr un s0 (s\<lparr>destroyed := x13\<rparr>) = heard L k cr un s0 s"
  "heard L k cr un s0 (s\<lparr>liveQueries := x14\<rparr>) = heard L k cr un s0 s"
  "heard L k cr un s0 (s\<lparr>queryTypesNeedRefresh := x15\<rparr>) = heard L k cr un s0 s"
  "heard L k cr un s0 (s\<lparr>nestedMayUnload := x17\<rparr>) = heard L k cr un s0 s"
  "heard L k cr un s0 (s\<lparr>nextKey := x18\<rparr>) = heard L k cr un s0 s"
  by (simp_all add: heard_def)


lemma heard_fields:
  assumes "heard L k cr un s0 s" "events s' = events s" "nestedStores s' = nestedStores s"
    "L = RecordObject \<Longrightarrow> skToRecord s' k = skToRecord s k" "skToStatus s' k = skToStatus s k"
  shows "heard L k cr un s0 s'"
  using assms(1) by (rule heard_silent [where es' = "[]"]) (simp_all add: assms)

lemma heard_wrappers:
  assumes "heard L k cr un s0 s"
  shows "heard L k cr un s0 (queueCommitChanges s)"
    "heard L k cr un s0 (recordSetWasModified T s)"
    "heard L k cr un s0 (notifyRecordOfChanges sk ks s)"
    "heard L k cr un s0 (emit [ConsoleLog msg] s)"
    "heard L k cr un s0 (emit [SourceFetchRecord T' ident] s)"
    "heard L k cr un s0 (emit [SourceRefreshRecord T' ident] s)"
    "heard L k cr un s0 (emit [SourceCommitChanges changes] s)"
  unfolding queueCommitChanges_def recordSetWasModified_def notifyRecordOfChanges_def
  using assms by (auto intro!: heard_emit)

subsection \<open>setStatus\<close>

text \<open>What \<open>setStatus\<close> sends reaches every nested store and the record object.\<close>

lemma lastTold_nested_if:
  "lastTold (NestedStore n) k (map (\<lambda>m. ParentDidChangeStatus m k p st) ns) =
     (if n \<in> set ns then Some st else None)"
  by (induction ns) simp_all

lemma lastTold_nested:
  "n \<in> set ns \<Longrightarrow>
   lastTold (NestedStore n) k (map (\<lambda>m. ParentDidChangeStatus m k p st) ns) = Some st"
  by (simp add: lastTold_nested_if)

lemma lastTold_nested_other:
  "j \<noteq> k \<Longrightarrow> lastTold L k (map (\<lambda>m. ParentDidChangeStatus m j p st) ns) = None"
  by (rule lastTold_silent) (cases L; auto)

lemma lastTold_nested_record:
  "lastTold RecordObject k (map (\<lambda>m. ParentDidChangeStatus m j p st) ns) = None"
  by (rule lastTold_silent) auto

lemma lastTold_setStatus:
  assumes "listening L k s"
  shows "lastTold L k ((if skToRecord s k then [RecordStatusDidChange k p st] else []) @
           map (\<lambda>n. ParentDidChangeStatus n k p st) (nestedStores s)) = Some st"
proof (cases L)
  case (NestedStore n)
  with assms have "n \<in> set (nestedStores s)" by (simp add: listening_def)
  then show ?thesis by (simp add: NestedStore lastTold_append lastTold_nested)
next
  case RecordObject
  with assms have "skToRecord s k" by (simp add: listening_def)
  then show ?thesis by (simp add: RecordObject lastTold_append lastTold_nested_record)
qed

lemma heard_setStatus:
  assumes h: "heard L k cr un s0 s"
  shows "heard L k cr un s0 (setStatus j st s)"
proof (cases "getStatus s j = st")
  case True
  with h show ?thesis by (simp add: setStatus_def)
next
  case False
  define new where "new = (if skToRecord s j then [RecordStatusDidChange j (getStatus s j) st] else []) @
           map (\<lambda>n. ParentDidChangeStatus n j (getStatus s j) st) (nestedStores s)"
  have s': "setStatus j st s = emit new (s\<lparr>skToStatus := (skToStatus s)(j \<mapsto> st)\<rparr>)"
    using False by (simp add: setStatus_def new_def Let_def)
  show ?thesis
  proof (cases "j = k")
    case other: False
    have quiet: "toldStatus L k e = None" if "e \<in> set new" for e
      using that other unfolding new_def by (cases L) (auto split: if_splits)
    show ?thesis
      unfolding s' by (rule heard_silent [OF h, where es' = new]) (simp_all add: emit_def other other [symmetric] quiet)
  next
    case True
    from h obtain es where es: "events s = events s0 @ es"
      and c: "un \<and> L = RecordObject \<and> \<not> skToRecord s k \<or>
         listening L k s \<and>
           (lastTold L k es = None \<and> skToStatus s k = skToStatus s0 k \<or>
            (\<exists>st. lastTold L k es = Some st \<and> skToStatus s k = Some st) \<or>
            cr \<and> skToStatus s k = Some (READY OR NEW) \<or>
            un \<and> skToStatus s k = None)"
      by (rule heardE)
    have li: "listening L k (setStatus j st s) = listening L k s"
      unfolding s' by (intro listening_cong) (simp_all add: emit_def)
    have told: "lastTold L k (es @ new) = Some st" if "listening L k s"
    proof -
      have "lastTold L k new = Some st"
        unfolding new_def True using that by (rule lastTold_setStatus)
      then show ?thesis by (simp only: lastTold_append option.case)
    qed
    show ?thesis
    proof (rule heardI)
      show "events (setStatus j st s) = events s0 @ (es @ new)"
        by (simp add: s' emit_def es)
      have rec: "skToRecord (setStatus j st s) k = skToRecord s k"
        and stat: "skToStatus (setStatus j st s) k = Some st"
        by (simp_all only: s') (simp_all add: emit_def True)
      from c show "un \<and> L = RecordObject \<and> \<not> skToRecord (setStatus j st s) k \<or>
         listening L k (setStatus j st s) \<and>
           (lastTold L k (es @ new) = None \<and> skToStatus (setStatus j st s) k = skToStatus s0 k \<or>
            (\<exists>st'. lastTold L k (es @ new) = Some st' \<and> skToStatus (setStatus j st s) k = Some st') \<or>
            cr \<and> skToStatus (setStatus j st s) k = Some (READY OR NEW) \<or>
            un \<and> skToStatus (setStatus j st s) k = None)"
        unfolding li rec stat using told by blast
    qed
  qed
qed

lemma heard_set:
  assumes "heard L k cr un s0 s"
  shows "heard L k cr un s0 (setDirty sk s)" "heard L k cr un s0 (setLoading sk s)"
    "heard L k cr un s0 (setCommitting sk s)" "heard L k cr un s0 (setObsolete sk s)"
  using assms
  by (simp_all add: setDirty_def setLoading_def setCommitting_def setObsolete_def heard_setStatus)

subsection \<open>unloadRecord and createRecord\<close>

text \<open>The two places that write the status table without \<open>setStatus\<close>.\<close>

lemma heard_unloaded:
  assumes h: "heard L k cr un s0 s" and un: un
    and same: "events s' = events s" "nestedStores s' = nestedStores s"
    and rec: "skToRecord s' = (skToRecord s)(j := False)"
    and stat: "skToStatus s' = (skToStatus s)(j := None)"
  shows "heard L k cr un s0 s'"
proof (cases "j = k")
  case False
  then show ?thesis by (intro heard_fields [OF h]) (simp_all add: same rec stat)
next
  case True
  from h obtain es where es: "events s = events s0 @ es"
    and c: "un \<and> L = RecordObject \<and> \<not> skToRecord s k \<or>
         listening L k s \<and>
           (lastTold L k es = None \<and> skToStatus s k = skToStatus s0 k \<or>
            (\<exists>st. lastTold L k es = Some st \<and> skToStatus s k = Some st) \<or>
            cr \<and> skToStatus s k = Some (READY OR NEW) \<or>
            un \<and> skToStatus s k = None)"
    by (rule heardE)
  show ?thesis
  proof (rule heardI)
    show "events s' = events s0 @ es" by (simp add: same es)
    show "un \<and> L = RecordObject \<and> \<not> skToRecord s' k \<or>
         listening L k s' \<and>
           (lastTold L k es = None \<and> skToStatus s' k = skToStatus s0 k \<or>
            (\<exists>st. lastTold L k es = Some st \<and> skToStatus s' k = Some st) \<or>
            cr \<and> skToStatus s' k = Some (READY OR NEW) \<or>
            un \<and> skToStatus s' k = None)"
    proof (cases L)
      case RecordObject
      with un show ?thesis by (simp add: rec True)
    next
      case (NestedStore n)
      with c have "n \<in> set (nestedStores s)" by (simp add: listening_def)
      with un show ?thesis by (simp add: NestedStore listening_def same stat True)
    qed
  qed
qed

lemma heard_unloadRecord:
  assumes h: "heard L k cr True s0 s"
  shows "heard L k cr True s0 (final (unloadRecord j s))"
proof -
  have gone: "heard L k cr True s0
     (s\<lparr>skToRecord := (skToRecord s)(j := False), skToStatus := (skToStatus s)(j := None)\<rparr>)"
    using h by (rule heard_unloaded) simp_all
  have eq: "s\<lparr>skToRecord := a, skToData := b, skToStatus := c, skToType := d, typeToSkToId := e\<rparr> =
            s\<lparr>skToRecord := a, skToStatus := c\<rparr>\<lparr>skToData := b, skToType := d, typeToSkToId := e\<rparr>"
    for a b c d e by simp
  show ?thesis
    unfolding unloadRecord_def Let_def using h gone
    by (simp add: eq split: option.splits)
qed

lemma heard_created:
  assumes h: "heard L k cr un s0 s" and cr: cr
    and same: "events s' = events s" "nestedStores s' = nestedStores s"
      "skToRecord s' = skToRecord s"
    and stat: "skToStatus s' = (skToStatus s)(j \<mapsto> READY OR NEW)"
  shows "heard L k cr un s0 s'"
proof (cases "j = k")
  case False
  then show ?thesis by (intro heard_fields [OF h]) (simp_all add: same stat)
next
  case True
  from h obtain es where es: "events s = events s0 @ es"
    and c: "un \<and> L = RecordObject \<and> \<not> skToRecord s k \<or>
         listening L k s \<and>
           (lastTold L k es = None \<and> skToStatus s k = skToStatus s0 k \<or>
            (\<exists>st. lastTold L k es = Some st \<and> skToStatus s k = Some st) \<or>
            cr \<and> skToStatus s k = Some (READY OR NEW) \<or>
            un \<and> skToStatus s k = None)"
    by (rule heardE)
  have li: "listening L k s' = listening L k s"
    by (intro listening_cong) (simp_all add: same)
  show ?thesis
  proof (rule heardI)
    show "events s' = events s0 @ es" by (simp add: same es)
    from c show "un \<and> L = RecordObject \<and> \<not> skToRecord s' k \<or>
         listening L k s' \<and>
           (lastTold L k es = None \<and> skToStatus s' k = skToStatus s0 k \<or>
            (\<exists>st. lastTold L k es = Some st \<and> skToStatus s' k = Some st) \<or>
            cr \<and> skToStatus s' k = Some (READY OR NEW) \<or>
            un \<and> skToStatus s' k = None)"
      unfolding li using cr by (auto simp: same stat True)
  qed
qed

lemma heard_createRecord:
  assumes h: "heard L k True un s0 s"
  shows "heard L k True un s0 (snd (createRecord j data s))"
proof -
  have new: "heard L k True un s0 (s\<lparr>skToStatus := (skToStatus s)(j \<mapsto> READY OR NEW)\<rparr>)"
    using h by (rule heard_created) simp_all
  have eq: "s\<lparr>skToData := a, skToStatus := b\<rparr> = s\<lparr>skToStatus := b\<rparr>\<lparr>skToData := a\<rparr>" for a b
    by simp
  show ?thesis
    unfolding createRecord_def Let_def using h new by (simp add: eq heard_wrappers)
qed

lemma heard_materialiseRecord:
  assumes h: "heard L k cr False s0 s"
  shows "heard L k cr False s0 (materialiseRecord j s)"
proof -
  from h have "listening L k s" unfolding heard_def by blast
  then have "L = RecordObject \<Longrightarrow> skToRecord s k" by (simp add: listening_def)
  then show ?thesis
    by (intro heard_fields [OF h]) (auto simp: materialiseRecord_def)
qed

subsection \<open>The calls, one by one\<close>

lemmas heard_simps = heard_setStatus heard_set heard_wrappers

lemma heard_updateHash:
  "heard L k cr un s0 s \<Longrightarrow> heard L k cr un s0 (snd (updateHash sk data d s))"
  unfolding updateHash_def Let_def
  by (simp add: heard_simps split: prod.splits)

lemma heard_setHash:
  "heard L k cr un s0 s \<Longrightarrow> heard L k cr un s0 (snd (setHash sk data d s))"
  by (simp add: setHash_def heard_updateHash)

lemma heard_revertHash: "heard L k cr un s0 s \<Longrightarrow> heard L k cr un s0 (revertHash sk s)"
  by (simp add: revertHash_def heard_updateHash split: option.splits)

lemma heard_getStoreKey:
  "heard L k cr un s0 s \<Longrightarrow> heard L k cr un s0 (snd (getStoreKey T ident s))"
  unfolding getStoreKey_def Let_def by simp

lemma heard_getStoreKey_pair:
  "getStoreKey T ident s = (sk, s1) \<Longrightarrow> heard L k cr un s0 s \<Longrightarrow> heard L k cr un s0 s1"
  using heard_getStoreKey [of L k cr un s0 s T ident] by simp

lemma heard_setIdForStoreKey:
  "heard L k cr un s0 s \<Longrightarrow> heard L k cr un s0 (final (setIdForStoreKey sk ident s))"
  unfolding setIdForStoreKey_def Let_def
  by (simp add: heard_updateHash split: option.splits)

lemma heard_fetchHash:
  "heard L k cr un s0 s \<Longrightarrow> heard L k cr un s0 (final (fetchHash sk s))"
  unfolding fetchHash_def Let_def
  by (simp add: heard_simps split: option.splits)

lemma heard_destroyRecord:
  "heard L k cr True s0 s \<Longrightarrow> heard L k cr True s0 (final (destroyRecord sk s))"
  unfolding destroyRecord_def Let_def
  by (auto intro!: andThen_final [where P = "heard L k cr True s0"] heard_unloadRecord
        heard_setStatus simp: heard_simps heard_setHash)

lemma heard_commitCreated:
  "heard L k cr un s0 s \<Longrightarrow> heard L k cr un s0 (final (commitCreated sk changes s))"
  unfolding commitCreated_def Let_def by (simp add: heard_simps split: option.splits)

lemma heard_commitChanged:
  "heard L k cr un s0 s \<Longrightarrow> heard L k cr un s0 (final (commitChanged p acc s))"
  unfolding commitChanged_def Let_def by (simp add: heard_simps split: option.splits)

lemma heard_commitDestroyed:
  "heard L k cr un s0 s \<Longrightarrow> heard L k cr un s0 (final (commitDestroyed sk acc s))"
  unfolding commitDestroyed_def Let_def by (simp add: heard_simps split: option.splits)

lemma heard_commitChanges:
  assumes h: "heard L k cr un s0 s"
  shows "heard L k cr un s0 (final (commitChanges s))"
  unfolding commitChanges_def
proof (intro andThen_final [where P = "heard L k cr un s0"]
    foldE_final_induct [where P = "heard L k cr un s0"])
  show "heard L k cr un s0 s" by (rule h)
qed (auto simp: heard_commitCreated heard_commitChanged heard_commitDestroyed heard_simps
       intro!: andThen_final [where P = "heard L k cr un s0"]
         foldE_final_induct [where P = "heard L k cr un s0"])


lemma heard_discardCreated:
  "heard L k cr True s0 s \<Longrightarrow> heard L k cr True s0 (final (discardCreated sk s))"
  unfolding discardCreated_def
  by (intro andThen_final [where P = "heard L k cr True s0"] heard_unloadRecord heard_setStatus)
     simp_all

lemma heard_discardChanged:
  "heard L k cr un s0 s \<Longrightarrow> heard L k cr un s0 (final (discardChanged sk s))"
  unfolding discardChanged_def Let_def by (simp add: heard_simps heard_setHash)

lemma heard_discardDestroyed:
  "heard L k cr un s0 s \<Longrightarrow> heard L k cr un s0 (final (discardDestroyed sk s))"
  unfolding discardDestroyed_def by (simp add: heard_simps)

lemmas heard_steps =
  andThen_final [where P = "heard L k cr un s0"]
  forEach_final_induct [where P = "heard L k cr un s0"]
  foldE_final_induct [where P = "heard L k cr un s0"] for L k cr un s0

lemma heard_discardChanges:
  "heard L k cr True s0 s \<Longrightarrow> heard L k cr True s0 (final (discardChanges s))"
  unfolding discardChanges_def
  by (intro heard_steps heard_discardCreated heard_discardChanged heard_discardDestroyed)
     (simp_all add: heard_simps)

lemma heard_fetchUpdate:
  assumes h: "heard L k cr un s0 s"
  shows "heard L k cr un s0 (final (fetchUpdate T p s))"
proof (cases "typeToIdToSk s (className T)")
  case None
  with h show ?thesis by (simp add: fetchUpdate_def)
next
  case idx: (Some idToSk)
  show ?thesis
  proof (cases "map_of idToSk (fst p)")
    case None
    with idx h show ?thesis by (simp add: fetchUpdate_def)
  next
    case key: (Some sk)
    show ?thesis
    proof (cases "rawStatus s sk AND READY = 0")
      case True
      with idx key h show ?thesis by (simp add: fetchUpdate_def Let_def)
    next
      case ready: False
      show ?thesis
      proof (cases "rawStatus s sk AND COMMITTING = 0")
        case True
        with idx key h ready show ?thesis
          by (simp add: fetchUpdate_def Let_def heard_simps heard_setHash heard_updateHash
                split: option.splits prod.splits)
      next
        case committing: False
        show ?thesis
        proof (cases "extendOpt (skToRollback s sk) (Some (snd p))")
          case None
          with idx key h ready committing show ?thesis by (simp add: fetchUpdate_def Let_def)
        next
          case (Some update1)
          with idx key h ready committing show ?thesis
            by (simp add: fetchUpdate_def Let_def heard_simps heard_setHash heard_updateHash
                  split: option.splits prod.splits)
        qed
      qed
    qed
  qed
qed

lemma heard_sourceDidFetchUpdates:
  "heard L k cr un s0 s \<Longrightarrow> heard L k cr un s0 (final (sourceDidFetchUpdates T updates s))"
  unfolding sourceDidFetchUpdates_def
  by (intro heard_steps heard_fetchUpdate) (simp_all add: heard_simps)

lemma heard_dropDirty: "heard L k cr un s0 s \<Longrightarrow> heard L k cr un s0 (dropDirty sk status s)"
  unfolding dropDirty_def Let_def by (simp add: heard_setHash)

lemma heard_destroyOne:
  "heard L k cr True s0 s \<Longrightarrow> heard L k cr True s0 (final (destroyOne T ident s))"
  unfolding destroyOne_def Let_def
  by (cases "getStoreKey T ident s")
     (auto intro!: heard_steps heard_unloadRecord heard_setStatus heard_dropDirty
        dest: heard_getStoreKey_pair)

lemma heard_sourceDidDestroyRecords:
  "heard L k cr True s0 s \<Longrightarrow> heard L k cr True s0 (final (sourceDidDestroyRecords T idList s))"
  unfolding sourceDidDestroyRecords_def
  by (intro heard_steps heard_destroyOne) (simp_all add: heard_simps)

lemma heard_couldNotFindOne:
  "heard L k cr True s0 s \<Longrightarrow> heard L k cr True s0 (final (couldNotFindOne T ident s))"
  unfolding couldNotFindOne_def Let_def
  by (cases "getStoreKey T ident s")
     (auto intro!: heard_steps heard_unloadRecord heard_setStatus heard_dropDirty
        dest: heard_getStoreKey_pair)

lemma heard_sourceCouldNotFindRecords:
  "heard L k cr True s0 s \<Longrightarrow>
   heard L k cr True s0 (final (sourceCouldNotFindRecords T idList s))"
  unfolding sourceCouldNotFindRecords_def
  by (intro heard_steps heard_couldNotFindOne) (simp_all add: heard_simps)

lemma heard_fetchRecord:
  "heard L k cr un s0 s \<Longrightarrow> heard L k cr un s0 (final (fetchRecord T now data acc s))"
  unfolding fetchRecord_def Let_def
  by (cases "getStoreKey T (getAttr data (primaryKey T)) s")
     (auto intro!: heard_setStatus heard_setHash heard_wrappers dest: heard_getStoreKey_pair)

lemma heard_sourceDidFetchRecords:
  "heard L k cr all s0 s \<Longrightarrow>
   heard L k cr all s0 (final (sourceDidFetchRecords T records all now s))"
  unfolding sourceDidFetchRecords_def Let_def
  by (intro heard_steps heard_fetchRecord)
     (auto intro!: heard_steps heard_sourceDidDestroyRecords heard_sourceDidFetchUpdates)

lemma heard_sourceDidFetchAllRecords:
  "heard L k cr True s0 s \<Longrightarrow>
   heard L k cr True s0 (final (sourceDidFetchAllRecords T records now s))"
  by (simp add: sourceDidFetchAllRecords_def heard_sourceDidFetchRecords)

lemma heard_hasUpdatesOne:
  "heard L k cr un s0 s \<Longrightarrow> heard L k cr un s0 (final (hasUpdatesOne T ident s))"
  unfolding hasUpdatesOne_def Let_def by (simp add: heard_simps split: option.splits)

lemma heard_sourceHasUpdatesForRecords:
  "heard L k cr un s0 s \<Longrightarrow> heard L k cr un s0 (final (sourceHasUpdatesForRecords T idList s))"
  unfolding sourceHasUpdatesForRecords_def
  by (intro heard_steps heard_hasUpdatesOne) simp_all

lemma heard_commitCreateOne:
  "heard L k cr un s0 s \<Longrightarrow> heard L k cr un s0 (final (commitCreateOne p s))"
  unfolding commitCreateOne_def Let_def
  by (auto intro!: heard_steps heard_setIdForStoreKey heard_setStatus heard_wrappers)

lemma heard_sourceDidCommitCreate:
  "heard L k cr un s0 s \<Longrightarrow> heard L k cr un s0 (final (sourceDidCommitCreate skToId s))"
  unfolding sourceDidCommitCreate_def by (intro heard_steps heard_commitCreateOne) simp_all

lemma heard_notCreateOne:
  "heard L k cr True s0 s \<Longrightarrow> heard L k cr True s0 (final (notCreateOne sk s))"
  unfolding notCreateOne_def Let_def
  by (auto intro!: heard_steps heard_unloadRecord heard_setStatus)

lemma heard_sourceDidNotCreate:
  "heard L k cr True s0 s \<Longrightarrow> heard L k cr True s0 (final (sourceDidNotCreate storeKeys s))"
  unfolding sourceDidNotCreate_def by (intro heard_steps heard_notCreateOne) simp_all

lemma heard_commitUpdateOne:
  "heard L k cr un s0 s \<Longrightarrow> heard L k cr un s0 (final (commitUpdateOne sk s))"
  unfolding commitUpdateOne_def Let_def by (simp add: heard_simps)

lemma heard_sourceDidCommitUpdate:
  "heard L k cr un s0 s \<Longrightarrow> heard L k cr un s0 (final (sourceDidCommitUpdate storeKeys s))"
  unfolding sourceDidCommitUpdate_def by (intro heard_steps heard_commitUpdateOne) simp_all

lemma heard_notUpdateOne:
  "heard L k cr un s0 s \<Longrightarrow> heard L k cr un s0 (final (notUpdateOne sk s))"
  unfolding notUpdateOne_def Let_def by (simp add: heard_simps)

lemma heard_sourceDidNotUpdate:
  "heard L k cr un s0 s \<Longrightarrow> heard L k cr un s0 (final (sourceDidNotUpdate storeKeys s))"
  unfolding sourceDidNotUpdate_def
  by (intro heard_steps heard_notUpdateOne) (simp_all add: heard_simps)

lemma heard_commitDestroyOne:
  "heard L k cr True s0 s \<Longrightarrow> heard L k cr True s0 (final (commitDestroyOne sk s))"
  unfolding commitDestroyOne_def Let_def
  by (intro heard_steps heard_unloadRecord heard_setStatus) (simp_all add: heard_simps)

lemma heard_sourceDidCommitDestroy:
  "heard L k cr True s0 s \<Longrightarrow> heard L k cr True s0 (final (sourceDidCommitDestroy storeKeys s))"
  unfolding sourceDidCommitDestroy_def by (intro heard_steps heard_commitDestroyOne) simp_all

lemma heard_notDestroyOne:
  "heard L k cr un s0 s \<Longrightarrow> heard L k cr un s0 (final (notDestroyOne sk s))"
  unfolding notDestroyOne_def Let_def by (simp add: heard_simps)

lemma heard_sourceDidNotDestroy:
  "heard L k cr un s0 s \<Longrightarrow> heard L k cr un s0 (final (sourceDidNotDestroy storeKeys s))"
  unfolding sourceDidNotDestroy_def by (intro heard_steps heard_notDestroyOne) simp_all

lemma heard_errorOne:
  "heard L k cr True s0 s \<Longrightarrow> heard L k cr True s0 (final (errorOne sk s))"
  unfolding errorOne_def Let_def
  by (auto intro!: heard_steps heard_unloadRecord heard_setStatus heard_wrappers
        simp: heard_setHash)

lemma heard_sourceDidError:
  "heard L k cr True s0 s \<Longrightarrow> heard L k cr True s0 (final (sourceDidError storeKeys s))"
  unfolding sourceDidError_def by (intro heard_steps heard_errorOne) simp_all

lemma heard_newRecord:
  "heard L k True False s0 s \<Longrightarrow> heard L k True False s0 (snd (newRecord T data s))"
  unfolding newRecord_def Let_def
  by (cases "getStoreKey T (getAttr data (primaryKey T)) s")
     (auto intro!: heard_createRecord heard_materialiseRecord dest: heard_getStoreKey_pair)

lemma heard_getRecord:
  assumes h: "heard L k cr False s0 s"
  shows "heard L k cr False s0 (final (getRecord T ref doNotFetch now s))"
proof (cases ref)
  case (ById i)
  obtain sk s1 where g: "getStoreKey T (JStr i) s = (sk, s1)"
    by (cases "getStoreKey T (JStr i) s")
  from g h have "heard L k cr False s0 s1" by (rule heard_getStoreKey_pair)
  with ById g show ?thesis
    by (auto simp: getRecord_def Let_def intro!: heard_steps heard_fetchHash heard_materialiseRecord)
next
  case (ByKey j)
  with h show ?thesis
    by (auto simp: getRecord_def Let_def intro!: heard_steps heard_fetchHash heard_materialiseRecord)
qed

lemma heard_fold_materialise:
  "heard L k cr False s0 s \<Longrightarrow> heard L k cr False s0 (fold materialiseRecord ks s)"
  by (induction ks arbitrary: s) (simp_all add: heard_materialiseRecord)

lemma heard_getAllLoadedRecords:
  "heard L k cr False s0 s \<Longrightarrow> heard L k cr False s0 (snd (getAllLoadedRecords T s))"
  unfolding getAllLoadedRecords_def Let_def by (simp add: heard_fold_materialise)

subsection \<open>Every call, and what the listener knows after it\<close>

lemma heard_perform_calls:
  assumes h: "heard L k (creates c) (unloads c) s0 s"
    and c: "\<And>n. c \<noteq> AddNested n" "\<And>n. c \<noteq> RemoveNested n"
  shows "heard L k (creates c) (unloads c) s0 (perform c s)"
  using h c
  by (cases c)
     (auto simp add: heard_getStoreKey heard_setIdForStoreKey heard_newRecord
        heard_getRecord heard_commitChanges heard_discardChanges heard_setStatus
        heard_set heard_unloadRecord heard_createRecord heard_destroyRecord
        heard_fetchHash heard_setHash heard_updateHash heard_revertHash
        heard_sourceDidFetchAllRecords heard_sourceDidFetchRecords
        heard_sourceHasUpdatesForRecords heard_sourceDidFetchUpdates
        heard_sourceCouldNotFindRecords heard_sourceDidDestroyRecords
        heard_sourceDidCommitCreate heard_sourceDidNotCreate heard_sourceDidCommitUpdate
        heard_sourceDidNotUpdate heard_sourceDidCommitDestroy heard_sourceDidNotDestroy
        heard_sourceDidError heard_getAllLoadedRecords heard_materialiseRecord)

lemma heard_told:
  assumes "heard L k cr un s s'"
  shows "lastTold L k (newEvents s s') = None \<and> skToStatus s' k = skToStatus s k \<or>
     (\<exists>st. lastTold L k (newEvents s s') = Some st \<and> skToStatus s' k = Some st) \<or>
     cr \<and> skToStatus s' k = Some (READY OR NEW) \<or>
     un \<and> (skToStatus s' k = None \<or> L = RecordObject \<and> \<not> skToRecord s' k)"
proof -
  from assms obtain es where es: "events s' = events s @ es"
    and c: "un \<and> L = RecordObject \<and> \<not> skToRecord s' k \<or>
         listening L k s' \<and>
           (lastTold L k es = None \<and> skToStatus s' k = skToStatus s k \<or>
            (\<exists>st. lastTold L k es = Some st \<and> skToStatus s' k = Some st) \<or>
            cr \<and> skToStatus s' k = Some (READY OR NEW) \<or>
            un \<and> skToStatus s' k = None)"
    by (rule heardE)
  have "newEvents s s' = es" by (simp add: newEvents_def es)
  with c show ?thesis by blast
qed

lemma told_perform:
  assumes l: "listening L k s"
  shows "lastTold L k (newEvents s (perform c s)) = None \<and>
       skToStatus (perform c s) k = skToStatus s k \<or>
     (\<exists>st. lastTold L k (newEvents s (perform c s)) = Some st \<and>
           skToStatus (perform c s) k = Some st) \<or>
     creates c \<and> skToStatus (perform c s) k = Some (READY OR NEW) \<or>
     unloads c \<and> (skToStatus (perform c s) k = None \<or>
                  L = RecordObject \<and> \<not> skToRecord (perform c s) k)"
proof (cases "(\<exists>n. c = AddNested n) \<or> (\<exists>n. c = RemoveNested n)")
  case True
  then have "newEvents s (perform c s) = []" "skToStatus (perform c s) k = skToStatus s k"
    by (auto simp: newEvents_def addNested_def removeNested_def)
  then show ?thesis by simp
next
  case False
  from l have "heard L k (creates c) (unloads c) s s" by (rule heard_start)
  then have "heard L k (creates c) (unloads c) s (perform c s)"
    using False by (intro heard_perform_calls) auto
  then show ?thesis by (rule heard_told)
qed

text \<open>
  C10 (counterexample).  Not every other change of status notifies.  A loaded record,
  READY and materialised, in a store with a nested store: \<open>unloadRecord\<close> deletes its
  status entry, so the status becomes EMPTY, and the store calls nobody.  When the source
  reports the record destroyed, the nested store is told DESTROYED and the record is then
  unloaded: its status is EMPTY and the nested store was never told.
\<close>

theorem unload_counterexample:
  "getStatus watchedLoaded 1 = READY \<and> skToRecord watchedLoaded 1 \<and>
   nestedStores watchedLoaded = [7] \<and>
   getStatus (perform (UnloadRecord 1) watchedLoaded) 1 = EMPTY \<and>
   newEvents watchedLoaded (perform (UnloadRecord 1) watchedLoaded) = [] \<and>
   getStatus (perform (SourceDidDestroyRecords T0 [JStr ''a'']) watchedLoaded) 1 = EMPTY \<and>
   lastTold (NestedStore 7) 1
     (newEvents watchedLoaded (perform (SourceDidDestroyRecords T0 [JStr ''a'']) watchedLoaded)) =
     Some DESTROYED"
  by code_simp

text \<open>
  C10 (amended).  \<open>createRecord\<close> on a key that is EMPTY or DESTROYED stores READY|NEW in the
  status table, so the status changes, but the only calls it makes are the queued commit
  (with \<open>autoCommit\<close>) and those of \<open>_recordSetWasModified\<close>: no \<open>status\<close> notification to the
  materialised record and no \<open>parentDidChangeStatus\<close> to a nested store.  \<open>setStatus\<close>
  with the same status, from the same store, notifies the materialised record and
  every nested store.

  \<open>unloadRecord\<close> calls nobody either.  The other changes of status notify.  Take any of
  the calls on the store, any store, a key, and a listener that the store holds before
  the call: a registered nested store, or the record object of the key.  After the call, either the listener was told
  nothing of the key and the status entry of the key is as it was; or the status the
  listener was last told is the status entry of the key; or the call is \<open>createRecord\<close>
  or \<open>newRecord\<close> and the entry is READY|NEW; or the call is one that can unload records
  and the key has no status entry, or the listener is the record object and the store
  has dropped it.  A call that throws counts with the store as the exception leaves it.
\<close>

theorem createRecord_fires_no_status_notification:
  "(getStatus s sk = EMPTY \<or> getStatus s sk = DESTROYED \<longrightarrow>
      fst (createRecord sk data s) \<and>
      skToStatus (snd (createRecord sk data s)) sk = Some (READY OR NEW) \<and>
      getStatus (snd (createRecord sk data s)) sk \<noteq> getStatus s sk \<and>
      events (snd (createRecord sk data s)) =
        events s @ (if autoCommit s then [QueueCommitChanges] else []) @
        map (\<lambda>n. NestedRecordSetWasModified n (map_option className (skToType s sk)))
          (nestedStores s) @
        [QueueRefreshLiveQueries] \<and>
      (\<forall>a b n. RecordStatusDidChange sk a b \<notin>
                 set (drop (length (events s)) (events (snd (createRecord sk data s)))) \<and>
               ParentDidChangeStatus n sk a b \<notin>
                 set (drop (length (events s)) (events (snd (createRecord sk data s))))) \<and>
      events (setStatus sk (READY OR NEW) s) =
        events s @
        (if skToRecord s sk then [RecordStatusDidChange sk (getStatus s sk) (READY OR NEW)]
         else []) @
        map (\<lambda>n. ParentDidChangeStatus n sk (getStatus s sk) (READY OR NEW)) (nestedStores s)) \<and>
   (listening L k t \<longrightarrow>
      lastTold L k (newEvents t (perform c t)) = None \<and>
        skToStatus (perform c t) k = skToStatus t k \<or>
      (\<exists>st. lastTold L k (newEvents t (perform c t)) = Some st \<and>
            skToStatus (perform c t) k = Some st) \<or>
      creates c \<and> skToStatus (perform c t) k = Some (READY OR NEW) \<or>
      unloads c \<and> (skToStatus (perform c t) k = None \<or>
                   L = RecordObject \<and> \<not> skToRecord (perform c t) k)) \<and>
   events (final (unloadRecord j u)) = events u"
proof (intro conjI [of "_ \<longrightarrow> _"] impI)
  assume a: "getStatus s sk = EMPTY \<or> getStatus s sk = DESTROYED"
  then show "fst (createRecord sk data s) \<and>
      skToStatus (snd (createRecord sk data s)) sk = Some (READY OR NEW) \<and>
      getStatus (snd (createRecord sk data s)) sk \<noteq> getStatus s sk \<and>
      events (snd (createRecord sk data s)) =
        events s @ (if autoCommit s then [QueueCommitChanges] else []) @
        map (\<lambda>n. NestedRecordSetWasModified n (map_option className (skToType s sk)))
          (nestedStores s) @
        [QueueRefreshLiveQueries] \<and>
      (\<forall>a b n. RecordStatusDidChange sk a b \<notin>
                 set (drop (length (events s)) (events (snd (createRecord sk data s)))) \<and>
               ParentDidChangeStatus n sk a b \<notin>
                 set (drop (length (events s)) (events (snd (createRecord sk data s))))) \<and>
      events (setStatus sk (READY OR NEW) s) =
        events s @
        (if skToRecord s sk then [RecordStatusDidChange sk (getStatus s sk) (READY OR NEW)]
         else []) @
        map (\<lambda>n. ParentDidChangeStatus n sk (getStatus s sk) (READY OR NEW)) (nestedStores s)"
    by (auto simp: createRecord_def setStatus_def Let_def wrappers getStatus_def status_bits
        split: option.splits)
next
  assume "listening L k t"
  then show "lastTold L k (newEvents t (perform c t)) = None \<and>
        skToStatus (perform c t) k = skToStatus t k \<or>
      (\<exists>st. lastTold L k (newEvents t (perform c t)) = Some st \<and>
            skToStatus (perform c t) k = Some st) \<or>
      creates c \<and> skToStatus (perform c t) k = Some (READY OR NEW) \<or>
      unloads c \<and> (skToStatus (perform c t) k = None \<or>
                   L = RecordObject \<and> \<not> skToRecord (perform c t) k)"
    by (rule told_perform)
next
  show "events (final (unloadRecord j u)) = events u"
    unfolding unloadRecord_def Let_def by (simp split: option.splits)
qed

theorem createRecord_fires_no_status_notification_witness:
  "getStatus watchedStore 1 = EMPTY \<and> skToRecord watchedStore 1 \<and>
   nestedStores watchedStore = [7] \<and>
   skToStatus (snd (createRecord 1 (Some [(''x'', JNum 1)]) watchedStore)) 1 = Some (READY OR NEW) \<and>
   events (snd (createRecord 1 (Some [(''x'', JNum 1)]) watchedStore)) =
     events watchedStore @
     [QueueCommitChanges, NestedRecordSetWasModified 7 (Some ''T''), QueueRefreshLiveQueries] \<and>
   events (setStatus 1 (READY OR NEW) watchedStore) =
     events watchedStore @
     [RecordStatusDidChange 1 EMPTY (READY OR NEW), ParentDidChangeStatus 7 1 EMPTY (READY OR NEW)] \<and>
   listening (NestedStore 7) 1 watchedLoaded \<and>
   lastTold (NestedStore 7) 1 (newEvents watchedLoaded (perform (SetObsolete 1) watchedLoaded)) =
     Some (READY OR OBSOLETE) \<and>
   skToStatus (perform (SetObsolete 1) watchedLoaded) 1 = Some (READY OR OBSOLETE) \<and>
   skToStatus (final (unloadRecord 1 watchedLoaded)) 1 = None \<and>
   events (final (unloadRecord 1 watchedLoaded)) = events watchedLoaded"
proof -
  have h: "getStatus watchedStore 1 = EMPTY" by code_simp
  have r: "skToRecord watchedStore 1" "nestedStores watchedStore = [7]"
    "autoCommit watchedStore" "map_option className (skToType watchedStore 1) = Some ''T''"
    by code_simp+
  have l: "listening (NestedStore 7) 1 watchedLoaded" by code_simp
  have t: "lastTold (NestedStore 7) 1
      (newEvents watchedLoaded (perform (SetObsolete 1) watchedLoaded)) = Some (READY OR OBSOLETE)"
    by code_simp
  note both = createRecord_fires_no_status_notification
    [of watchedStore 1 "Some [(''x'', JNum 1)]" "NestedStore 7" 1 watchedLoaded "SetObsolete 1"
      1 watchedLoaded]
  from both h have first: "skToStatus (snd (createRecord 1 (Some [(''x'', JNum 1)]) watchedStore)) 1 =
      Some (READY OR NEW) \<and>
    events (snd (createRecord 1 (Some [(''x'', JNum 1)]) watchedStore)) =
     events watchedStore @
     [QueueCommitChanges, NestedRecordSetWasModified 7 (Some ''T''), QueueRefreshLiveQueries] \<and>
    events (setStatus 1 (READY OR NEW) watchedStore) =
     events watchedStore @
     [RecordStatusDidChange 1 EMPTY (READY OR NEW), ParentDidChangeStatus 7 1 EMPTY (READY OR NEW)]"
    using r by simp
  from both l have "lastTold (NestedStore 7) 1
        (newEvents watchedLoaded (perform (SetObsolete 1) watchedLoaded)) = None \<and>
        skToStatus (perform (SetObsolete 1) watchedLoaded) 1 = skToStatus watchedLoaded 1 \<or>
      (\<exists>st. lastTold (NestedStore 7) 1
          (newEvents watchedLoaded (perform (SetObsolete 1) watchedLoaded)) = Some st \<and>
            skToStatus (perform (SetObsolete 1) watchedLoaded) 1 = Some st)"
    by simp
  then have second: "skToStatus (perform (SetObsolete 1) watchedLoaded) 1 = Some (READY OR OBSOLETE)"
    unfolding t by simp
  have gone: "skToStatus (final (unloadRecord 1 watchedLoaded)) 1 = None" by code_simp
  from both have third: "events (final (unloadRecord 1 watchedLoaded)) = events watchedLoaded"
    by (elim conjE)
  from h r l t first second gone third show ?thesis by simp
qed

end
